theory Spec2Isabelle
  imports Complex_Main "HOL-Library.Monad_Syntax"
begin

section \<open>Types of the render queue\<close>

text \<open>
  \<^verbatim>\<open>EffectType\<close> is a union of string literals. The annotation is erased when the program
  runs, so an effect is kept as the string it is, and the five members of the union are
  the predicate \<open>isEffectType\<close>. \<^verbatim>\<open>Priority\<close> and \<^verbatim>\<open>JobStatus\<close> are enumerations: a
  priority is only stored, and a status is only ever written by the class itself.
\<close>

definition isEffectType :: "string \<Rightarrow> bool" where
  "isEffectType e \<longleftrightarrow>
     e \<in> set [''color_grade'', ''blur'', ''trim'', ''speed_change'', ''transition'']"

datatype Priority = High | Normal | Low

datatype JobStatus = Pending | Processing | Done | Cancelled

text \<open>
  The interface \<^verbatim>\<open>RenderJob\<close>. The optional field \<^verbatim>\<open>durationMs\<close> is \<open>None\<close> while it
  is undefined. The field \<^verbatim>\<open>id\<close> is named \<open>job_id\<close> here.
\<close>

record RenderJob =
  job_id :: string
  segmentId :: string
  effect :: string
  priority :: Priority
  createdAt :: int
  status :: JobStatus
  durationMs :: "int option"

text \<open>The interface \<^verbatim>\<open>QueueStats\<close> (the field \<^verbatim>\<open>done\<close> is named \<open>done_jobs\<close>).\<close>

record Counts =
  pending :: nat
  processing :: nat
  done_jobs :: nat
  cancelled :: nat

record QueueStats = Counts +
  averageRenderTimeMs :: int


section \<open>The linked queue\<close>

text \<open>
  Class \<^verbatim>\<open>Node<T>\<close>: a value and a reference to the next node. Nodes live in a heap, the
  list \<open>nodes\<close> of a queue; the address of a node is its position there, \<^verbatim>\<open>new Node\<close>
  allocates at the end, and \<^verbatim>\<open>null\<close> is \<open>None\<close>. A node that has been dequeued stays in
  the heap as garbage.
\<close>

record 'a Node =
  node_value :: 'a
  node_next :: "nat option"

record 'a Queue =
  nodes :: "'a Node list"
  head :: "nat option"
  tail :: "nat option"
  size_q :: int

definition Queue_new :: "'a Queue" where
  "Queue_new = \<lparr>nodes = [], head = None, tail = None, size_q = 0\<rparr>"

text \<open>\<^verbatim>\<open>enqueue(value)\<close>: allocate the node, link it behind the tail, move the tail,
  set the head if there was none, count.\<close>

definition Queue_enqueue :: "'a Queue \<Rightarrow> 'a \<Rightarrow> 'a Queue" where
  "Queue_enqueue q v =
     (let node = length (nodes q);
          ns = nodes q @ [\<lparr>node_value = v, node_next = None\<rparr>];
          ns' = (case tail q of
                   Some t \<Rightarrow> ns[t := (ns ! t)\<lparr>node_next := Some node\<rparr>]
                 | None \<Rightarrow> ns)
      in \<lparr>nodes = ns',
          head = (case head q of None \<Rightarrow> Some node | Some h \<Rightarrow> Some h),
          tail = Some node,
          size_q = size_q q + 1\<rparr>)"

text \<open>\<^verbatim>\<open>dequeue()\<close>: \<^verbatim>\<open>undefined\<close> (here \<open>None\<close>) when there is no head; otherwise the
  head's value, the head moved on, the tail cleared when the head becomes \<^verbatim>\<open>null\<close>.\<close>

definition Queue_dequeue :: "'a Queue \<Rightarrow> 'a option \<times> 'a Queue" where
  "Queue_dequeue q =
     (case head q of
        None \<Rightarrow> (None, q)
      | Some h \<Rightarrow>
          (let v = node_value (nodes q ! h);
               head' = node_next (nodes q ! h);
               tail' = (if head' = None then None else tail q)
           in (Some v, q\<lparr>head := head', tail := tail', size_q := size_q q - 1\<rparr>)))"

definition Queue_peek :: "'a Queue \<Rightarrow> 'a option" where
  "Queue_peek q = (case head q of None \<Rightarrow> None | Some h \<Rightarrow> Some (node_value (nodes q ! h)))"

definition Queue_size :: "'a Queue \<Rightarrow> int" where
  "Queue_size q = size_q q"

definition Queue_isEmpty :: "'a Queue \<Rightarrow> bool" where
  "Queue_isEmpty q \<longleftrightarrow> size_q q = 0"

text \<open>
  The iterator follows the \<^verbatim>\<open>next\<close> references from the head until it meets \<^verbatim>\<open>null\<close>.
  On a cyclic chain it never ends, so it is a partial function: \<open>None\<close> is "no result".
  (An address outside the heap has no counterpart in the program and gives \<open>None\<close> too.)
  \<open>Queue_addrs\<close> walks the same chain and collects the addresses; it is used to state
  the invariant of the structure.
\<close>

partial_function (option) Queue_iterate :: "'a Node list \<Rightarrow> nat option \<Rightarrow> 'a list option" where
  "Queue_iterate ns current =
     (case current of
        None \<Rightarrow> Some []
      | Some a \<Rightarrow>
          if a < length ns
          then do { rest \<leftarrow> Queue_iterate ns (node_next (ns ! a));
                    Some (node_value (ns ! a) # rest) }
          else None)"

declare Queue_iterate.simps [code]

definition Queue_toArray :: "'a Queue \<Rightarrow> 'a list option" where
  "Queue_toArray q = Queue_iterate (nodes q) (head q)"

partial_function (option) Queue_addrs :: "'a Node list \<Rightarrow> nat option \<Rightarrow> nat list option" where
  "Queue_addrs ns current =
     (case current of
        None \<Rightarrow> Some []
      | Some a \<Rightarrow>
          if a < length ns
          then do { rest \<leftarrow> Queue_addrs ns (node_next (ns ! a)); Some (a # rest) }
          else None)"

declare Queue_addrs.simps [code]

text \<open>
  The invariant of the structure (spec, section 3): the chain from the head is finite and
  does not repeat a node, \<open>_size\<close> counts its nodes, and the tail is its last node (no
  tail when it is empty).
\<close>

definition Queue_inv :: "'a Queue \<Rightarrow> bool" where
  "Queue_inv q \<longleftrightarrow>
     (case Queue_addrs (nodes q) (head q) of
        None \<Rightarrow> False
      | Some as \<Rightarrow>
          distinct as \<and> size_q q = int (length as) \<and>
          tail q = (if as = [] then None else Some (last as)))"


section \<open>The render queue\<close>

text \<open>What the class writes to the console, one constructor for each message.\<close>

datatype LogLine =
    LOG_ENQUEUE string string string Priority
  | LOG_CANCEL string string
  | LOG_QUEUE_EMPTY
  | LOG_SKIP string
  | LOG_START string string string
  | LOG_DONE string int

datatype JsError = TypeError

text \<open>
  Class \<^verbatim>\<open>VideoRenderQueue\<close>. Its five fields come first. A \<^verbatim>\<open>RenderJob\<close> object is
  created in \<^verbatim>\<open>enqueue\<close> only and pushed to \<open>history\<close> in the same call, and
  \<open>history\<close> is never reordered or shortened: the objects are the elements of
  \<open>history\<close>, and a reference to a job (what the linked queue holds, what an activation of
  the worker holds) is the job's position in \<open>history\<close>. Changing \<^verbatim>\<open>job.status\<close> through
  any reference is an update of \<open>history\<close> at that position.

  Three more components are the part of the run-time state that the class's behaviour
  depends on or produces:
  \<^item> \<open>sleeping\<close>: the activations of \<^verbatim>\<open>processNext\<close> suspended at \<^verbatim>\<open>await sleep(renderTime)\<close>,
    each with its job, its \<^verbatim>\<open>startTime\<close> and the \<^verbatim>\<open>renderTime\<close> it sleeps for;
  \<^item> \<open>console\<close>: the lines written so far;
  \<^item> \<open>unhandled\<close>: the rejections of \<^verbatim>\<open>processNext\<close> promises (nothing handles them).
\<close>

record VideoRenderQueue =
  queue :: "nat Queue"
  history :: "RenderJob list"
  cancelledSegments :: "string set"
  isProcessing :: bool
  jobCounter :: nat
  sleeping :: "(nat \<times> int \<times> nat option) list"
  console :: "LogLine list"
  unhandled :: "JsError list"

definition VideoRenderQueue_new :: VideoRenderQueue where
  "VideoRenderQueue_new =
     \<lparr>queue = Queue_new, history = [], cancelledSegments = {}, isProcessing = False,
      jobCounter = 0, sleeping = [], console = [], unhandled = []\<rparr>"

text \<open>The decimal numeral of a number, for the template \<^verbatim>\<open>`job_${++this.jobCounter}`\<close>.\<close>

definition digit_char :: "nat \<Rightarrow> char" where
  "digit_char d = char_of (48 + d)"

fun decimal :: "nat \<Rightarrow> string" where
  "decimal n = (if n < 10 then [digit_char n] else decimal (n div 10) @ [digit_char (n mod 10)])"

declare decimal.simps [simp del]

text \<open>
  \<^verbatim>\<open>estimateRenderTime\<close>: the lookup \<^verbatim>\<open>times[effect]\<close> in the table of the five effects, in
  the order of the source. A key that the table does not have gives \<^verbatim>\<open>undefined\<close>, here
  \<open>None\<close> (the names that every JavaScript object inherits are left aside).
\<close>

definition times_table :: "(string \<times> nat) list" where
  "times_table =
     [(''trim'', 100), (''speed_change'', 200), (''color_grade'', 350), (''blur'', 300),
      (''transition'', 250)]"

definition estimateRenderTime :: "string \<Rightarrow> nat option" where
  "estimateRenderTime e = map_of times_table e"

text \<open>
  \<^verbatim>\<open>cancelPendingForSegment(segmentId)\<close>: add the segment to \<open>cancelledSegments\<close>, then go
  through \<open>history\<close> in order; every job of that segment that is pending becomes cancelled
  and one line is written for it.
\<close>

definition cancelPendingForSegment :: "VideoRenderQueue \<Rightarrow> string \<Rightarrow> VideoRenderQueue" where
  "cancelPendingForSegment s seg =
     s\<lparr>cancelledSegments := insert seg (cancelledSegments s),
       history :=
         map (\<lambda>job. if segmentId job = seg \<and> status job = Pending
                     then job\<lparr>status := Cancelled\<rparr> else job) (history s),
       console :=
         console s @
         map (\<lambda>job. LOG_CANCEL (job_id job) seg)
           (filter (\<lambda>job. segmentId job = seg \<and> status job = Pending) (history s))\<rparr>"

text \<open>
  \<^verbatim>\<open>processNext()\<close>, from its call to the point where it gives control back: either the
  queue is empty and the worker goes idle, or it suspends at \<^verbatim>\<open>await sleep(renderTime)\<close>
  with a job set to processing (a new entry of \<open>sleeping\<close>). In between it calls itself
  for every cancelled job it dequeues. \<open>now\<close> is what \<^verbatim>\<open>Date.now()\<close> returns for
  \<^verbatim>\<open>startTime\<close>. The function is \<^verbatim>\<open>async\<close>: where \<^verbatim>\<open>dequeue()\<close> returns \<^verbatim>\<open>undefined\<close>,
  reading \<^verbatim>\<open>job.status\<close> throws, which rejects the promise and is recorded in
  \<open>unhandled\<close>. The recursion need not end on a damaged queue, so the function is partial:
  \<open>None\<close> is "never gives control back".
\<close>

partial_function (option) processNext :: "VideoRenderQueue \<Rightarrow> int \<Rightarrow> VideoRenderQueue option"
where
  "processNext s now =
     (if Queue_isEmpty (queue s)
      then Some (s\<lparr>isProcessing := False, console := console s @ [LOG_QUEUE_EMPTY]\<rparr>)
      else
        (case Queue_dequeue (queue s) of
           (None, q') \<Rightarrow>
             Some (s\<lparr>isProcessing := True, queue := q', unhandled := unhandled s @ [TypeError]\<rparr>)
         | (Some r, q') \<Rightarrow>
             (let job = history s ! r in
              if status job = Cancelled
              then processNext
                     (s\<lparr>isProcessing := True, queue := q',
                        console := console s @ [LOG_SKIP (job_id job)]\<rparr>) now
              else Some
                     (s\<lparr>isProcessing := True, queue := q',
                        history := (history s)[r := job\<lparr>status := Processing\<rparr>],
                        console :=
                          console s @ [LOG_START (job_id job) (effect job) (segmentId job)],
                        sleeping :=
                          sleeping s @ [(r, now, estimateRenderTime (effect job))]\<rparr>))))"

declare processNext.simps [code]

text \<open>
  \<^verbatim>\<open>enqueue(params)\<close>. \<open>enqueue_append\<close> is the body down to the \<^verbatim>\<open>console.log\<close>: cancel the
  pending jobs of the segment, build the job, append its reference to the queue and the
  job to \<open>history\<close>. \<open>created\<close> is what \<^verbatim>\<open>Date.now()\<close> returns for \<^verbatim>\<open>createdAt\<close>. Then
  \<^verbatim>\<open>processNext()\<close> is called when no worker is active; the call runs until it suspends or
  goes idle, and only then \<^verbatim>\<open>enqueue\<close> returns the job. The result is the reference of
  the job and the new state; the record that the caller holds is \<open>returned_job\<close>.
\<close>

definition enqueue_append ::
  "VideoRenderQueue \<Rightarrow> string \<Rightarrow> string \<Rightarrow> Priority \<Rightarrow> int \<Rightarrow> VideoRenderQueue" where
  "enqueue_append s seg eff prio created =
     (let s1 = cancelPendingForSegment s seg;
          n = jobCounter s1 + 1;
          job = \<lparr>job_id = ''job_'' @ decimal n, segmentId = seg, effect = eff, priority = prio,
                 createdAt = created, status = Pending, durationMs = None\<rparr>
      in s1\<lparr>jobCounter := n,
            queue := Queue_enqueue (queue s1) (length (history s1)),
            history := history s1 @ [job],
            console := console s1 @ [LOG_ENQUEUE (job_id job) seg eff prio]\<rparr>)"

definition enqueue ::
  "VideoRenderQueue \<Rightarrow> string \<Rightarrow> string \<Rightarrow> Priority \<Rightarrow> int \<Rightarrow> int \<Rightarrow>
   (nat \<times> VideoRenderQueue) option" where
  "enqueue s seg eff prio created now =
     (let s2 = enqueue_append s seg eff prio created;
          r = length (history s2) - 1
      in if \<not> isProcessing s2
         then map_option (Pair r) (processNext s2 now)
         else Some (r, s2))"

definition returned_job :: "(nat \<times> VideoRenderQueue) \<Rightarrow> RenderJob" where
  "returned_job res = history (snd res) ! fst res"

text \<open>
  The rest of \<^verbatim>\<open>processNext\<close>, run when the timer of the \<open>k\<close>-th sleeping activation
  fires: the job becomes done, \<^verbatim>\<open>durationMs\<close> is \<^verbatim>\<open>Date.now() - startTime\<close> (\<open>finished\<close> is
  that reading of the clock), and \<^verbatim>\<open>processNext()\<close> is called again (\<open>now\<close> as before).
  Nothing happens when there is no such activation.
\<close>

definition timer_fires ::
  "VideoRenderQueue \<Rightarrow> nat \<Rightarrow> int \<Rightarrow> int \<Rightarrow> VideoRenderQueue option" where
  "timer_fires s k finished now =
     (if k < length (sleeping s)
      then
        (let r = fst (sleeping s ! k);
             startTime = fst (snd (sleeping s ! k));
             job = history s ! r;
             d = finished - startTime
         in processNext
              (s\<lparr>sleeping := take k (sleeping s) @ drop (Suc k) (sleeping s),
                 history := (history s)[r := job\<lparr>status := Done, durationMs := Some d\<rparr>],
                 console := console s @ [LOG_DONE (job_id job) d]\<rparr>) now)
      else Some s)"

text \<open>
  \<^verbatim>\<open>getStats()\<close>. The loop over \<open>history\<close> counts each status and collects the durations of
  the done jobs that have one. JavaScript numbers are taken as exact: the quotient is a
  rational, and \<^verbatim>\<open>Math.round\<close> is the nearest integer, a half going up.
\<close>

fun count_status :: "JobStatus \<Rightarrow> Counts \<Rightarrow> Counts" where
  "count_status Pending c = c\<lparr>pending := pending c + 1\<rparr>"
| "count_status Processing c = c\<lparr>processing := processing c + 1\<rparr>"
| "count_status Done c = c\<lparr>done_jobs := done_jobs c + 1\<rparr>"
| "count_status Cancelled c = c\<lparr>cancelled := cancelled c + 1\<rparr>"

fun getStats_loop :: "RenderJob list \<Rightarrow> Counts \<times> int list \<Rightarrow> Counts \<times> int list" where
  "getStats_loop [] acc = acc"
| "getStats_loop (job # jobs) (counts, renderTimes) =
     getStats_loop jobs
       (count_status (status job) counts,
        (if status job = Done
         then (case durationMs job of Some d \<Rightarrow> renderTimes @ [d] | None \<Rightarrow> renderTimes)
         else renderTimes))"

definition Math_round :: "rat \<Rightarrow> int" where
  "Math_round x = \<lfloor>x + 1 / 2\<rfloor>"

definition getStats :: "VideoRenderQueue \<Rightarrow> QueueStats" where
  "getStats s =
     (let (counts, renderTimes) =
            getStats_loop (history s)
              (\<lparr>pending = 0, processing = 0, done_jobs = 0, cancelled = 0\<rparr>, []);
          averageRenderTimeMs =
            (if length renderTimes > 0
             then Math_round (of_int (foldl (+) 0 renderTimes) / of_int (int (length renderTimes)))
             else 0)
      in \<lparr>pending = pending counts, processing = processing counts,
          done_jobs = done_jobs counts, cancelled = cancelled counts,
          averageRenderTimeMs = averageRenderTimeMs\<rparr>)"


section \<open>Runs of the scheduler\<close>

text \<open>
  What can happen to a scheduler: a call of one of its three public methods, or the timer
  of a sleeping activation firing. Each call carries the clock readings it makes. A run
  is a list of such events, with the list of what the calls returned.
\<close>

datatype Event =
    Enqueue string string Priority int int
  | CancelPending string
  | GetStats
  | TimerFires nat int int

datatype Reply = Job RenderJob | Stats QueueStats | Unit

fun step :: "Event \<Rightarrow> VideoRenderQueue \<Rightarrow> (Reply \<times> VideoRenderQueue) option" where
  "step (Enqueue seg eff prio created now) s =
     map_option (\<lambda>res. (Job (returned_job res), snd res)) (enqueue s seg eff prio created now)"
| "step (CancelPending seg) s = Some (Unit, cancelPendingForSegment s seg)"
| "step GetStats s = Some (Stats (getStats s), s)"
| "step (TimerFires k finished now) s =
     map_option (Pair Unit) (timer_fires s k finished now)"

fun run :: "Event list \<Rightarrow> VideoRenderQueue \<Rightarrow> (Reply list \<times> VideoRenderQueue) option" where
  "run [] s = Some ([], s)"
| "run (e # es) s =
     (case step e s of
        None \<Rightarrow> None
      | Some (r, s') \<Rightarrow> map_option (\<lambda>(rs, s''). (r # rs, s'')) (run es s'))"

definition reachable :: "VideoRenderQueue \<Rightarrow> bool" where
  "reachable s \<longleftrightarrow> (\<exists>es rs. run es VideoRenderQueue_new = Some (rs, s))"


section \<open>Invariants and auxiliary notions\<close>

text \<open>
  \<open>Queue_path ns p as\<close>: following the \<^verbatim>\<open>next\<close> references from \<open>p\<close> visits exactly the
  addresses \<open>as\<close> and then meets \<^verbatim>\<open>null\<close>.
\<close>

fun Queue_path :: "'a Node list \<Rightarrow> nat option \<Rightarrow> nat list \<Rightarrow> bool" where
  "Queue_path ns p [] \<longleftrightarrow> p = None"
| "Queue_path ns p (a # as) \<longleftrightarrow>
     p = Some a \<and> a < length ns \<and> Queue_path ns (node_next (ns ! a)) as"

text \<open>The body of the loop of \<^verbatim>\<open>cancelPendingForSegment\<close>, for one job.\<close>

definition cancel_job :: "string \<Rightarrow> RenderJob \<Rightarrow> RenderJob" where
  "cancel_job seg job =
     (if segmentId job = seg \<and> status job = Pending then job\<lparr>status := Cancelled\<rparr> else job)"

text \<open>
  \<open>processNext_on rs s now\<close> does what \<^verbatim>\<open>processNext\<close> does when the queue of \<open>s\<close> holds
  the references \<open>rs\<close>: it recurses on that list instead of on the linked structure. It is
  a device for the proofs: \<open>processNext\<close> is shown to return what it computes whenever the
  queue is well formed.
\<close>

fun processNext_on :: "nat list \<Rightarrow> VideoRenderQueue \<Rightarrow> int \<Rightarrow> VideoRenderQueue" where
  "processNext_on [] s now = s\<lparr>isProcessing := False, console := console s @ [LOG_QUEUE_EMPTY]\<rparr>"
| "processNext_on (r # rs) s now =
     (let q' = snd (Queue_dequeue (queue s)); job = history s ! r in
      if status job = Cancelled
      then processNext_on rs
             (s\<lparr>isProcessing := True, queue := q',
                console := console s @ [LOG_SKIP (job_id job)]\<rparr>) now
      else s\<lparr>isProcessing := True, queue := q',
             history := (history s)[r := job\<lparr>status := Processing\<rparr>],
             console := console s @ [LOG_START (job_id job) (effect job) (segmentId job)],
             sleeping := sleeping s @ [(r, now, estimateRenderTime (effect job))]\<rparr>)"

text \<open>
  Well-formedness of a scheduler, whether or not a worker is active: the linked queue is
  well formed; it holds references to jobs of \<open>history\<close>, in the order of their creation,
  each pending or cancelled; a duration is recorded exactly for the done jobs; no two
  pending jobs are for the same segment; no promise was rejected.
\<close>

definition VideoRenderQueue_wf :: "VideoRenderQueue \<Rightarrow> bool" where
  "VideoRenderQueue_wf s \<longleftrightarrow>
     Queue_inv (queue s) \<and>
     (case Queue_toArray (queue s) of
        None \<Rightarrow> False
      | Some rs \<Rightarrow>
          sorted_wrt (<) rs \<and>
          (\<forall>r \<in> set rs. r < length (history s) \<and>
                         (status (history s ! r) = Pending \<or> status (history s ! r) = Cancelled))) \<and>
     (\<forall>job \<in> set (history s). durationMs job \<noteq> None \<longleftrightarrow> status job = Done) \<and>
     distinct (map segmentId (filter (\<lambda>job. status job = Pending) (history s))) \<and>
     unhandled s = []"

text \<open>
  The invariant of the scheduler between two events: it is well formed; at most one
  activation of the worker sleeps, \<open>isProcessing\<close> says whether one does, and its job is the
  one processing job; an idle scheduler has an empty queue.
\<close>

definition VideoRenderQueue_inv :: "VideoRenderQueue \<Rightarrow> bool" where
  "VideoRenderQueue_inv s \<longleftrightarrow>
     VideoRenderQueue_wf s \<and>
     length (sleeping s) \<le> 1 \<and>
     (isProcessing s \<longleftrightarrow> sleeping s \<noteq> []) \<and>
     (\<forall>a \<in> set (sleeping s). fst a < length (history s)) \<and>
     (\<forall>i \<in> {0..<length (history s)}.
        status (history s ! i) = Processing \<longleftrightarrow> i \<in> fst ` set (sleeping s)) \<and>
     (\<not> isProcessing s \<longrightarrow> Queue_toArray (queue s) = Some [])"

text \<open>
  Two readings of "at most one job of a segment is active". The first counts the pending
  and the processing jobs of a segment together; the second counts only the pending ones.
\<close>

definition one_active_per_segment :: "VideoRenderQueue \<Rightarrow> bool" where
  "one_active_per_segment s \<longleftrightarrow>
     distinct (map segmentId
       (filter (\<lambda>job. status job = Pending \<or> status job = Processing) (history s)))"

definition one_pending_per_segment :: "VideoRenderQueue \<Rightarrow> bool" where
  "one_pending_per_segment s \<longleftrightarrow>
     distinct (map segmentId (filter (\<lambda>job. status job = Pending) (history s)))"

text \<open>The durations of the done jobs, and the mean of a list of durations to the nearest
  integer (\<open>round\<close> takes a half up, as \<^verbatim>\<open>Math.round\<close> does).\<close>

definition done_durations :: "VideoRenderQueue \<Rightarrow> int list" where
  "done_durations s = map (\<lambda>job. the (durationMs job)) (filter (\<lambda>job. status job = Done) (history s))"

definition rounded_mean :: "int list \<Rightarrow> int" where
  "rounded_mean ds =
     (if ds = [] then 0 else round (of_int (sum_list ds) / of_int (int (length ds)) :: rat))"

text \<open>
  The scheduler without the set \<open>cancelledSegments\<close>: the same class with the statement
  that adds to the set deleted. Nothing else mentions the set, so in this variant the
  field is dead and keeps its value.
\<close>

definition cancelPendingForSegment_noset :: "VideoRenderQueue \<Rightarrow> string \<Rightarrow> VideoRenderQueue" where
  "cancelPendingForSegment_noset s seg =
     s\<lparr>history :=
         map (\<lambda>job. if segmentId job = seg \<and> status job = Pending
                     then job\<lparr>status := Cancelled\<rparr> else job) (history s),
       console :=
         console s @
         map (\<lambda>job. LOG_CANCEL (job_id job) seg)
           (filter (\<lambda>job. segmentId job = seg \<and> status job = Pending) (history s))\<rparr>"

definition enqueue_append_noset ::
  "VideoRenderQueue \<Rightarrow> string \<Rightarrow> string \<Rightarrow> Priority \<Rightarrow> int \<Rightarrow> VideoRenderQueue" where
  "enqueue_append_noset s seg eff prio created =
     (let s1 = cancelPendingForSegment_noset s seg;
          n = jobCounter s1 + 1;
          job = \<lparr>job_id = ''job_'' @ decimal n, segmentId = seg, effect = eff, priority = prio,
                 createdAt = created, status = Pending, durationMs = None\<rparr>
      in s1\<lparr>jobCounter := n,
            queue := Queue_enqueue (queue s1) (length (history s1)),
            history := history s1 @ [job],
            console := console s1 @ [LOG_ENQUEUE (job_id job) seg eff prio]\<rparr>)"

definition enqueue_noset ::
  "VideoRenderQueue \<Rightarrow> string \<Rightarrow> string \<Rightarrow> Priority \<Rightarrow> int \<Rightarrow> int \<Rightarrow>
   (nat \<times> VideoRenderQueue) option" where
  "enqueue_noset s seg eff prio created now =
     (let s2 = enqueue_append_noset s seg eff prio created;
          r = length (history s2) - 1
      in if \<not> isProcessing s2
         then map_option (Pair r) (processNext s2 now)
         else Some (r, s2))"

fun step_noset :: "Event \<Rightarrow> VideoRenderQueue \<Rightarrow> (Reply \<times> VideoRenderQueue) option" where
  "step_noset (Enqueue seg eff prio created now) s =
     map_option (\<lambda>res. (Job (returned_job res), snd res))
       (enqueue_noset s seg eff prio created now)"
| "step_noset (CancelPending seg) s = Some (Unit, cancelPendingForSegment_noset s seg)"
| "step_noset GetStats s = Some (Stats (getStats s), s)"
| "step_noset (TimerFires k finished now) s =
     map_option (Pair Unit) (timer_fires s k finished now)"

fun run_noset ::
  "Event list \<Rightarrow> VideoRenderQueue \<Rightarrow> (Reply list \<times> VideoRenderQueue) option" where
  "run_noset [] s = Some ([], s)"
| "run_noset (e # es) s =
     (case step_noset e s of
        None \<Rightarrow> None
      | Some (r, s') \<Rightarrow> map_option (\<lambda>(rs, s''). (r # rs, s'')) (run_noset es s'))"


text \<open>
  What the worker finds in a queue holding the references \<open>rs\<close>: the cancelled jobs at
  the front are skipped, and \<open>first_live\<close> is what remains from the first job that is
  not cancelled.
\<close>

definition first_live :: "RenderJob list \<Rightarrow> nat list \<Rightarrow> nat list" where
  "first_live h rs = dropWhile (\<lambda>r. status (h ! r) = Cancelled) rs"

text \<open>
  The events of \<^verbatim>\<open>runSimulation\<close>: three submissions, two more 150 ms later (the first of
  them replaces the blur of \<^verbatim>\<open>seg_002\<close>), the four timers of the renders that are not
  cancelled, and the final \<^verbatim>\<open>getStats()\<close>. The clock starts at 0; the first and the last
  timer fire one millisecond late. \<open>state_after es\<close> is the state that a new scheduler is in after
  the events \<open>es\<close>.
\<close>

definition runSimulation_events :: "Event list" where
  "runSimulation_events =
     [Enqueue ''seg_001'' ''color_grade'' High 0 0,
      Enqueue ''seg_002'' ''blur'' Normal 0 0,
      Enqueue ''seg_003'' ''transition'' Normal 0 0,
      Enqueue ''seg_002'' ''speed_change'' Normal 150 150,
      Enqueue ''seg_004'' ''trim'' Low 150 150,
      TimerFires 0 351 351,
      TimerFires 0 601 601,
      TimerFires 0 801 801,
      TimerFires 0 902 902,
      GetStats]"

definition state_after :: "Event list \<Rightarrow> VideoRenderQueue" where
  "state_after es = snd (the (run es VideoRenderQueue_new))"


section \<open>The linked queue implements a list\<close>

lemma Queue_addrs_None [simp]: "Queue_addrs ns None = Some []"
  by (simp add: Queue_addrs.simps)

lemma Queue_addrs_Some:
  "Queue_addrs ns (Some a) =
     (if a < length ns
      then map_option (Cons a) (Queue_addrs ns (node_next (ns ! a))) else None)"
  by (subst Queue_addrs.simps) (simp add: map_option_case bind_eq_None_conv split: option.splits bind_splits)

lemma Queue_iterate_None [simp]: "Queue_iterate ns None = Some []"
  by (simp add: Queue_iterate.simps)

lemma Queue_iterate_Some:
  "Queue_iterate ns (Some a) =
     (if a < length ns
      then map_option (Cons (node_value (ns ! a))) (Queue_iterate ns (node_next (ns ! a)))
      else None)"
  by (subst Queue_iterate.simps) (simp split: option.splits bind_splits)

lemma addrs_path: "Queue_addrs ns p = Some as \<longleftrightarrow> Queue_path ns p as"
proof (induction as arbitrary: p)
  case Nil
  show ?case by (cases p) (auto simp: Queue_addrs_Some)
next
  case (Cons a as)
  show ?case
  proof (cases p)
    case None
    then show ?thesis by simp
  next
    case (Some b)
    then show ?thesis using Cons.IH [of "node_next (ns ! b)"]
      by (auto simp: Queue_addrs_Some)
  qed
qed

lemma path_iterate:
  "Queue_path ns p as \<Longrightarrow> Queue_iterate ns p = Some (map (\<lambda>a. node_value (ns ! a)) as)"
  by (induction as arbitrary: p) (auto simp: Queue_iterate_Some)

lemma path_bound: "Queue_path ns p as \<Longrightarrow> a \<in> set as \<Longrightarrow> a < length ns"
  by (induction as arbitrary: p) auto

lemma path_update_other:
  "a \<notin> set as \<Longrightarrow> Queue_path (ns[a := x]) p as = Queue_path ns p as"
  by (induction as arbitrary: p) auto

lemma path_alloc:
  "Queue_path ns p as \<Longrightarrow> Queue_path (ns @ [x]) p as"
  by (induction as arbitrary: p) (auto simp: nth_append)

lemma path_last_next:
  "Queue_path ns p as \<Longrightarrow> as \<noteq> [] \<Longrightarrow> node_next (ns ! last as) = None"
  by (induction as arbitrary: p) (auto split: if_splits)

lemma path_link:
  "Queue_path ns p (as @ [t]) \<Longrightarrow> distinct (as @ [t]) \<Longrightarrow> n < length ns \<Longrightarrow>
   n \<notin> set as \<Longrightarrow> n \<noteq> t \<Longrightarrow> node_next (ns ! n) = None \<Longrightarrow>
   Queue_path (ns[t := (ns ! t)\<lparr>node_next := Some n\<rparr>]) p (as @ [t, n])"
proof (induction as arbitrary: p)
  case Nil
  then show ?case by simp
next
  case (Cons a as)
  then show ?case by (auto simp: nth_list_update)
qed

lemma Queue_inv_path:
  "Queue_inv q \<longleftrightarrow>
     (\<exists>as. Queue_path (nodes q) (head q) as \<and> distinct as \<and> size_q q = int (length as) \<and>
           tail q = (if as = [] then None else Some (last as)))"
  by (auto simp: Queue_inv_def addrs_path [symmetric] split: option.splits)

lemma path_unique: "Queue_path ns p as \<Longrightarrow> Queue_path ns p bs \<Longrightarrow> as = bs"
  using addrs_path by (metis option.inject)

lemma Queue_toArray_path:
  "Queue_path (nodes q) (head q) as \<Longrightarrow>
   Queue_toArray q = Some (map (\<lambda>a. node_value (nodes q ! a)) as)"
  by (simp add: Queue_toArray_def path_iterate)

lemma Queue_new_inv: "Queue_inv Queue_new"
  by (simp add: Queue_inv_def Queue_new_def)

lemma Queue_new_toArray: "Queue_toArray Queue_new = Some []"
  by (simp add: Queue_toArray_def Queue_new_def)

lemma Queue_inv_total: "Queue_inv q \<Longrightarrow> \<exists>xs. Queue_toArray q = Some xs"
  by (auto simp: Queue_inv_path dest: Queue_toArray_path)

lemma Queue_isEmpty_iff:
  assumes "Queue_inv q" "Queue_toArray q = Some xs"
  shows "Queue_isEmpty q \<longleftrightarrow> xs = []"
proof -
  from assms(1) obtain as where p: "Queue_path (nodes q) (head q) as"
    and s: "size_q q = int (length as)" by (auto simp: Queue_inv_path)
  from Queue_toArray_path [OF p] assms(2) have "length xs = length as" by auto
  with s show ?thesis by (auto simp: Queue_isEmpty_def)
qed

lemma Queue_enqueue_correct:
  assumes "Queue_inv q" "Queue_toArray q = Some xs"
  shows "Queue_inv (Queue_enqueue q v) \<and> Queue_toArray (Queue_enqueue q v) = Some (xs @ [v])"
proof -
  let ?ns = "nodes q" and ?n = "length (nodes q)"
  let ?new = "\<lparr>node_value = v, node_next = None\<rparr>"
  from assms(1) obtain as where p: "Queue_path ?ns (head q) as" and d: "distinct as"
    and s: "size_q q = int (length as)"
    and t: "tail q = (if as = [] then None else Some (last as))"
    by (auto simp: Queue_inv_path)
  from Queue_toArray_path [OF p] assms(2)
  have xs: "xs = map (\<lambda>a. node_value (?ns ! a)) as" by simp
  have b: "\<And>a. a \<in> set as \<Longrightarrow> a < ?n" using path_bound [OF p] .
  let ?q' = "Queue_enqueue q v"
  have "Queue_path (nodes ?q') (head ?q') (as @ [?n]) \<and>
        map (\<lambda>a. node_value (nodes ?q' ! a)) (as @ [?n]) = xs @ [v] \<and>
        tail ?q' = Some ?n \<and> size_q ?q' = int (length (as @ [?n]))"
  proof (cases as rule: rev_cases)
    case Nil
    with p t s xs show ?thesis by (simp add: Queue_enqueue_def Let_def)
  next
    case (snoc bs t')
    with p obtain h where h: "head q = Some h" by (cases bs) auto
    from snoc t have tl: "tail q = Some t'" by simp
    have t'n: "t' < ?n" using b snoc by simp
    have nbs: "?n \<notin> set bs" "?n \<noteq> t'" using b snoc by fastforce+
    have "Queue_path (?ns @ [?new]) (Some h) (bs @ [t'])"
      using p h snoc by (simp add: path_alloc)
    from path_link [OF this, of ?n] d snoc nbs
    have 1: "Queue_path ((?ns @ [?new])[t' := ((?ns @ [?new]) ! t')\<lparr>node_next := Some ?n\<rparr>])
               (Some h) (bs @ [t', ?n])" by simp
    have 2: "map (\<lambda>a. node_value
                ((?ns @ [?new])[t' := ((?ns @ [?new]) ! t')\<lparr>node_next := Some ?n\<rparr>] ! a)) as
             = xs"
      unfolding xs using b t'n by (auto simp: nth_list_update nth_append)
    show ?thesis using 1 2 h tl s snoc t'n
      by (simp add: Queue_enqueue_def Let_def nth_list_update)
  qed
  moreover have "distinct (as @ [?n])" using d b by auto
  ultimately show ?thesis
    unfolding Queue_inv_path using Queue_toArray_path [of ?q' "as @ [?n]"]
    by (intro conjI exI [of _ "as @ [?n]"]) simp_all
qed

lemma Queue_dequeue_Nil:
  assumes "Queue_inv q" "Queue_toArray q = Some []"
  shows "Queue_dequeue q = (None, q)"
proof -
  from assms(1) obtain as where p: "Queue_path (nodes q) (head q) as"
    by (auto simp: Queue_inv_path)
  from Queue_toArray_path [OF p] assms(2) have "as = []" by simp
  with p show ?thesis by (simp add: Queue_dequeue_def)
qed

lemma Queue_dequeue_Cons:
  assumes "Queue_inv q" "Queue_toArray q = Some (x # xs)"
  shows "fst (Queue_dequeue q) = Some x \<and> Queue_inv (snd (Queue_dequeue q)) \<and>
         Queue_toArray (snd (Queue_dequeue q)) = Some xs"
proof -
  let ?ns = "nodes q"
  from assms(1) obtain as where p: "Queue_path ?ns (head q) as" and d: "distinct as"
    and s: "size_q q = int (length as)"
    and t: "tail q = (if as = [] then None else Some (last as))"
    by (auto simp: Queue_inv_path)
  from Queue_toArray_path [OF p] assms(2)
  have xs: "x # xs = map (\<lambda>a. node_value (?ns ! a)) as" by simp
  then obtain a bs where as: "as = a # bs" by (cases as) auto
  with p have h: "head q = Some a" and p': "Queue_path ?ns (node_next (?ns ! a)) bs" by auto
  let ?q' = "snd (Queue_dequeue q)"
  have q': "nodes ?q' = ?ns" "head ?q' = node_next (?ns ! a)" "size_q ?q' = int (length bs)"
    "tail ?q' = (if node_next (?ns ! a) = None then None else tail q)"
    using h s as by (simp_all add: Queue_dequeue_def Let_def)
  have e: "node_next (?ns ! a) = None \<longleftrightarrow> bs = []" using p' by (cases bs) auto
  have "Queue_inv ?q'"
    unfolding Queue_inv_path using p' d as t q' e
    by (intro exI [of _ bs]) auto
  moreover have "Queue_toArray ?q' = Some xs"
    using Queue_toArray_path [of ?q' bs] p' q' xs as by simp
  moreover have "fst (Queue_dequeue q) = Some x"
    using h xs as by (simp add: Queue_dequeue_def Let_def)
  ultimately show ?thesis by simp
qed


section \<open>The worker on a well-formed queue\<close>

lemma processNext_eq_on:
  "Queue_inv (queue s) \<Longrightarrow> Queue_toArray (queue s) = Some rs \<Longrightarrow>
   processNext s now = Some (processNext_on rs s now)"
proof (induction rs arbitrary: s)
  case Nil
  then have "Queue_isEmpty (queue s)" by (simp add: Queue_isEmpty_iff)
  then show ?case by (subst processNext.simps) simp
next
  case (Cons r rs)
  from Queue_dequeue_Cons [OF Cons.prems]
  obtain q' where d: "Queue_dequeue (queue s) = (Some r, q')" and i: "Queue_inv q'"
    and a: "Queue_toArray q' = Some rs"
    by (cases "Queue_dequeue (queue s)") auto
  have ne: "\<not> Queue_isEmpty (queue s)" using Cons.prems by (simp add: Queue_isEmpty_iff)
  show ?case
  proof (cases "status (history s ! r) = Cancelled")
    case True
    let ?s1 = "s\<lparr>isProcessing := True, queue := q',
                  console := console s @ [LOG_SKIP (job_id (history s ! r))]\<rparr>"
    have "processNext s now = processNext ?s1 now"
      using ne d True by (subst processNext.simps) (simp add: Let_def)
    also have "\<dots> = Some (processNext_on rs ?s1 now)"
      using i a by (intro Cons.IH) simp_all
    finally show ?thesis using True d by (simp add: Let_def)
  next
    case False
    then show ?thesis using ne d by (subst processNext.simps) (simp add: Let_def)
  qed
qed

section \<open>The invariant holds in every reachable state\<close>

lemma distinct_map_filter_update:
  "\<not> P x \<Longrightarrow> distinct (map f (filter P xs)) \<Longrightarrow> distinct (map f (filter P (xs[i := x])))"
proof (induction xs arbitrary: i)
  case Nil
  then show ?case by simp
next
  case (Cons y ys)
  have sub: "\<And>j. set (filter P (ys[j := x])) \<subseteq> set (filter P ys)"
    using Cons.prems(1) by (auto dest: subsetD [OF set_update_subset_insert])
  show ?case
  proof (cases i)
    case 0
    then show ?thesis using Cons.prems by (auto split: if_splits)
  next
    case (Suc j)
    then show ?thesis using Cons sub [of j] by auto
  qed
qed

lemma cancel_history:
  "history (cancelPendingForSegment s seg) = map (cancel_job seg) (history s)"
  by (simp add: cancelPendingForSegment_def cancel_job_def [abs_def])

lemma cancel_fields [simp]:
  "queue (cancelPendingForSegment s seg) = queue s"
  "isProcessing (cancelPendingForSegment s seg) = isProcessing s"
  "jobCounter (cancelPendingForSegment s seg) = jobCounter s"
  "sleeping (cancelPendingForSegment s seg) = sleeping s"
  "unhandled (cancelPendingForSegment s seg) = unhandled s"
  "length (history (cancelPendingForSegment s seg)) = length (history s)"
  by (simp_all add: cancelPendingForSegment_def)

lemma cancel_job_simps [simp]:
  "segmentId (cancel_job seg job) = segmentId job"
  "durationMs (cancel_job seg job) = durationMs job"
  "status (cancel_job seg job) = Done \<longleftrightarrow> status job = Done"
  "status (cancel_job seg job) = Processing \<longleftrightarrow> status job = Processing"
  "status (cancel_job seg job) = Pending \<longleftrightarrow> status job = Pending \<and> segmentId job \<noteq> seg"
  "status job = Cancelled \<Longrightarrow> cancel_job seg job = job"
  by (auto simp: cancel_job_def)

lemma cancel_job_status_cases:
  "status job = Pending \<or> status job = Cancelled \<Longrightarrow>
   status (cancel_job seg job) = Pending \<or> status (cancel_job seg job) = Cancelled"
  by (auto simp: cancel_job_def)

lemma filter_pending_cancel:
  "filter (\<lambda>job. status job = Pending) (map (cancel_job seg) h) =
   filter (\<lambda>job. segmentId job \<noteq> seg) (filter (\<lambda>job. status job = Pending) h)"
  by (induction h) (auto simp: cancel_job_def)

lemma wf_cancel:
  assumes "VideoRenderQueue_wf s"
  shows "VideoRenderQueue_wf (cancelPendingForSegment s seg)"
proof -
  from assms obtain rs where rs: "Queue_toArray (queue s) = Some rs"
    by (auto simp: VideoRenderQueue_wf_def split: option.splits)
  have "distinct (map segmentId (filter (\<lambda>job. status job = Pending)
          (map (cancel_job seg) (history s))))"
    unfolding filter_pending_cancel
    by (rule distinct_map_filter) (use assms in \<open>simp add: VideoRenderQueue_wf_def\<close>)
  moreover have "\<forall>r \<in> set rs. r < length (history s) \<and>
      (status (cancel_job seg (history s ! r)) = Pending \<or>
       status (cancel_job seg (history s ! r)) = Cancelled)"
    using assms rs by (auto simp: VideoRenderQueue_wf_def cancel_job_def)
  ultimately show ?thesis
    using assms rs unfolding VideoRenderQueue_wf_def cancel_history
    by simp
qed

lemma inv_cancel:
  assumes "VideoRenderQueue_inv s"
  shows "VideoRenderQueue_inv (cancelPendingForSegment s seg)"
  using assms wf_cancel [of s seg] unfolding VideoRenderQueue_inv_def
  by (auto simp: cancel_history)

lemma wf_toArray: "VideoRenderQueue_wf s \<Longrightarrow> \<exists>rs. Queue_toArray (queue s) = Some rs"
  by (auto simp: VideoRenderQueue_wf_def split: option.splits)

lemma enqueue_append_fields:
  "history (enqueue_append s seg eff prio created) =
     map (cancel_job seg) (history s) @
     [\<lparr>job_id = ''job_'' @ decimal (jobCounter s + 1), segmentId = seg, effect = eff,
       priority = prio, createdAt = created, status = Pending, durationMs = None\<rparr>]"
  "queue (enqueue_append s seg eff prio created) = Queue_enqueue (queue s) (length (history s))"
  "isProcessing (enqueue_append s seg eff prio created) = isProcessing s"
  "sleeping (enqueue_append s seg eff prio created) = sleeping s"
  "unhandled (enqueue_append s seg eff prio created) = unhandled s"
  "jobCounter (enqueue_append s seg eff prio created) = jobCounter s + 1"
  "cancelledSegments (enqueue_append s seg eff prio created) = insert seg (cancelledSegments s)"
  by (simp_all add: enqueue_append_def Let_def cancel_history)
    (simp add: cancelPendingForSegment_def)

lemma pending_after_cancel:
  assumes "job \<in> set (map (cancel_job seg) h)" "status job = Pending"
  shows "segmentId job \<noteq> seg"
proof -
  from assms(1) obtain j where j: "job = cancel_job seg j" by auto
  from assms(2) have "segmentId j \<noteq> seg" unfolding j by simp
  then show ?thesis unfolding j by simp
qed

lemma wf_enqueue_append:
  assumes "VideoRenderQueue_wf s" "Queue_toArray (queue s) = Some rs"
  shows "VideoRenderQueue_wf (enqueue_append s seg eff prio created)"
    and "Queue_toArray (queue (enqueue_append s seg eff prio created)) =
           Some (rs @ [length (history s)])"
proof -
  let ?s' = "enqueue_append s seg eff prio created"
  let ?n = "length (history s)"
  have qi: "Queue_inv (queue s)" using assms by (simp add: VideoRenderQueue_wf_def)
  from Queue_enqueue_correct [OF qi assms(2), of ?n]
  have q: "Queue_inv (queue ?s')" and a: "Queue_toArray (queue ?s') = Some (rs @ [?n])"
    by (simp_all add: enqueue_append_fields)
  show "Queue_toArray (queue ?s') = Some (rs @ [?n])" by (rule a)
  have wfc: "VideoRenderQueue_wf (cancelPendingForSegment s seg)"
    using assms(1) by (rule wf_cancel)
  have rs: "\<forall>r \<in> set rs. r < ?n \<and>
      (status (cancel_job seg (history s ! r)) = Pending \<or>
       status (cancel_job seg (history s ! r)) = Cancelled)"
    using wfc assms(2) by (auto simp: VideoRenderQueue_wf_def cancel_history)
  have s1: "sorted_wrt (<) (rs @ [?n])"
    using assms rs by (auto simp: VideoRenderQueue_wf_def sorted_wrt_append)
  have s2: "\<forall>r \<in> set (rs @ [?n]). r < length (history ?s') \<and>
      (status (history ?s' ! r) = Pending \<or> status (history ?s' ! r) = Cancelled)"
    using rs by (auto simp: enqueue_append_fields nth_append)
  have s3: "\<forall>job \<in> set (history ?s'). durationMs job \<noteq> None \<longleftrightarrow> status job = Done"
    using assms(1) by (auto simp: enqueue_append_fields VideoRenderQueue_wf_def)
  have "seg \<notin> segmentId ` {job \<in> set (map (cancel_job seg) (history s)). status job = Pending}"
    using pending_after_cancel by blast
  then have s4: "distinct (map segmentId (filter (\<lambda>job. status job = Pending) (history ?s')))"
    using wfc by (simp add: enqueue_append_fields VideoRenderQueue_wf_def cancel_history)
  show "VideoRenderQueue_wf ?s'"
    unfolding VideoRenderQueue_wf_def using q a s1 s2 s3 s4 assms(1)
    by (simp add: enqueue_append_fields(5) VideoRenderQueue_wf_def)
qed

lemma processNext_on_inv:
  assumes "VideoRenderQueue_wf s" "Queue_toArray (queue s) = Some rs" "sleeping s = []"
    "\<forall>job \<in> set (history s). status job \<noteq> Processing"
  shows "VideoRenderQueue_inv (processNext_on rs s now)"
  using assms
proof (induction rs arbitrary: s)
  case Nil
  then show ?case by (auto simp: VideoRenderQueue_inv_def VideoRenderQueue_wf_def)
next
  case (Cons r rs)
  let ?q' = "snd (Queue_dequeue (queue s))"
  have qi: "Queue_inv (queue s)" using Cons.prems by (simp add: VideoRenderQueue_wf_def)
  from Queue_dequeue_Cons [OF qi Cons.prems(2)]
  have q: "Queue_inv ?q'" and a: "Queue_toArray ?q' = Some rs" by simp_all
  from Cons.prems(1,2) have srt: "sorted_wrt (<) rs" and rlt: "\<forall>x \<in> set rs. r < x"
    and refs: "\<forall>x \<in> set rs. x < length (history s) \<and>
      (status (history s ! x) = Pending \<or> status (history s ! x) = Cancelled)"
    and r: "r < length (history s)"
      "status (history s ! r) = Pending \<or> status (history s ! r) = Cancelled"
    and dur: "\<forall>job \<in> set (history s). durationMs job \<noteq> None \<longleftrightarrow> status job = Done"
    and dis: "distinct (map segmentId (filter (\<lambda>job. status job = Pending) (history s)))"
    and unh: "unhandled s = []"
    by (auto simp: VideoRenderQueue_wf_def)
  show ?case
  proof (cases "status (history s ! r) = Cancelled")
    case True
    let ?s1 = "s\<lparr>isProcessing := True, queue := ?q',
                  console := console s @ [LOG_SKIP (job_id (history s ! r))]\<rparr>"
    have "VideoRenderQueue_wf ?s1"
      unfolding VideoRenderQueue_wf_def using q a srt refs dur dis unh by simp
    then have "VideoRenderQueue_inv (processNext_on rs ?s1 now)"
      using a Cons.prems(3,4) by (intro Cons.IH) simp_all
    then show ?thesis using True by (simp add: Let_def)
  next
    case False
    with r have p: "status (history s ! r) = Pending" by simp
    let ?job = "(history s ! r)\<lparr>status := Processing\<rparr>"
    let ?h = "(history s)[r := ?job]"
    let ?s2 = "s\<lparr>isProcessing := True, queue := ?q', history := ?h,
                  console := console s @ [LOG_START (job_id (history s ! r))
                     (effect (history s ! r)) (segmentId (history s ! r))],
                  sleeping := sleeping s @ [(r, now, estimateRenderTime (effect (history s ! r)))]\<rparr>"
    have res: "processNext_on (r # rs) s now = ?s2" using False by (simp add: Let_def)
    have w2: "\<forall>x \<in> set rs. x < length ?h \<and>
      (status (?h ! x) = Pending \<or> status (?h ! x) = Cancelled)"
    proof
      fix x assume x: "x \<in> set rs"
      with rlt have "x \<noteq> r" by auto
      then show "x < length ?h \<and> (status (?h ! x) = Pending \<or> status (?h ! x) = Cancelled)"
        using refs x by simp
    qed
    have "durationMs (history s ! r) = None"
      using dur r(1) p by (metis JobStatus.distinct(3) nth_mem)
    then have w3: "\<forall>job \<in> set ?h. durationMs job \<noteq> None \<longleftrightarrow> status job = Done"
      using dur by (auto dest!: subsetD [OF set_update_subset_insert])
    have w4: "distinct (map segmentId (filter (\<lambda>job. status job = Pending) ?h))"
      using dis by (intro distinct_map_filter_update) simp_all
    have wf2: "VideoRenderQueue_wf ?s2"
      unfolding VideoRenderQueue_wf_def using q a srt w2 w3 w4 unh by simp
    have w5: "\<forall>i \<in> {0..<length ?h}. status (?h ! i) = Processing \<longleftrightarrow> i = r"
      using Cons.prems(4) r(1) by (auto simp: nth_list_update)
    have "VideoRenderQueue_inv ?s2"
      unfolding VideoRenderQueue_inv_def using wf2 w5 r(1) Cons.prems(3) by simp
    then show ?thesis by (simp only: res)
  qed
qed

lemma inv_wf: "VideoRenderQueue_inv s \<Longrightarrow> VideoRenderQueue_wf s"
  by (simp add: VideoRenderQueue_inv_def)

lemma wf_Queue_inv: "VideoRenderQueue_wf s \<Longrightarrow> Queue_inv (queue s)"
  by (simp add: VideoRenderQueue_wf_def)

lemma inv_processing_iff:
  "VideoRenderQueue_inv s \<Longrightarrow> i < length (history s) \<Longrightarrow>
   status (history s ! i) = Processing \<longleftrightarrow> i \<in> fst ` set (sleeping s)"
  by (simp add: VideoRenderQueue_inv_def)

lemma inv_idle_no_processing:
  assumes "VideoRenderQueue_inv s" "\<not> isProcessing s" "job \<in> set (history s)"
  shows "status job \<noteq> Processing"
proof -
  from assms(3) obtain i where "i < length (history s)" "job = history s ! i"
    by (auto simp: in_set_conv_nth)
  with assms(1,2) show ?thesis
    using inv_processing_iff [of s i] by (simp add: VideoRenderQueue_inv_def)
qed

lemma inv_new: "VideoRenderQueue_inv VideoRenderQueue_new"
  by (simp add: VideoRenderQueue_inv_def VideoRenderQueue_wf_def VideoRenderQueue_new_def
      Queue_new_inv Queue_new_toArray)

lemma enqueue_inv:
  assumes "VideoRenderQueue_inv s"
  shows "\<exists>s'. enqueue s seg eff prio created now = Some (length (history s), s') \<and>
              VideoRenderQueue_inv s'"
proof -
  let ?s2 = "enqueue_append s seg eff prio created"
  let ?n = "length (history s)"
  have wf: "VideoRenderQueue_wf s" using assms by (rule inv_wf)
  then obtain rs where rs: "Queue_toArray (queue s) = Some rs" using wf_toArray by blast
  note w2 = wf_enqueue_append [OF wf rs, of seg eff prio created]
  have len: "length (history ?s2) - 1 = ?n" by (simp add: enqueue_append_fields)
  show ?thesis
  proof (cases "isProcessing s")
    case True
    have e: "enqueue s seg eff prio created now = Some (?n, ?s2)"
      using True len by (simp add: enqueue_def Let_def enqueue_append_fields)
    have b: "\<forall>a \<in> set (sleeping s). fst a < ?n"
      using assms by (simp add: VideoRenderQueue_inv_def)
    have p: "\<forall>i \<in> {0..<length (history ?s2)}.
        status (history ?s2 ! i) = Processing \<longleftrightarrow> i \<in> fst ` set (sleeping s)"
    proof
      fix i assume "i \<in> {0..<length (history ?s2)}"
      then have "i < ?n \<or> i = ?n" by (auto simp: enqueue_append_fields)
      then show "status (history ?s2 ! i) = Processing \<longleftrightarrow> i \<in> fst ` set (sleeping s)"
      proof
        assume "i < ?n"
        then show ?thesis
          using inv_processing_iff [OF assms, of i]
          by (simp add: enqueue_append_fields nth_append)
      next
        assume "i = ?n"
        then show ?thesis using b by (auto simp: enqueue_append_fields nth_append)
      qed
    qed
    have b2: "\<forall>a \<in> set (sleeping s). fst a < length (history ?s2)"
      using b by (auto simp: enqueue_append_fields)
    have "VideoRenderQueue_inv ?s2"
      unfolding VideoRenderQueue_inv_def
      using w2 p b2 assms True
      by (simp add: enqueue_append_fields(1)[symmetric] enqueue_append_fields(3,4)
          VideoRenderQueue_inv_def)
    with e show ?thesis by simp
  next
    case False
    have sl: "sleeping ?s2 = []"
      using assms False by (simp add: VideoRenderQueue_inv_def enqueue_append_fields)
    have np: "\<forall>job \<in> set (history ?s2). status job \<noteq> Processing"
      using inv_idle_no_processing [OF assms False]
      by (auto simp: enqueue_append_fields)
    have e: "enqueue s seg eff prio created now =
               Some (?n, processNext_on (rs @ [?n]) ?s2 now)"
      using False len processNext_eq_on [OF wf_Queue_inv [OF w2(1)] w2(2), of now]
      by (simp add: enqueue_def Let_def enqueue_append_fields)
    from processNext_on_inv [OF w2 sl np, of now] e show ?thesis by simp
  qed
qed

lemma timer_fires_inv:
  assumes "VideoRenderQueue_inv s"
  shows "\<exists>s'. timer_fires s k finished now = Some s' \<and> VideoRenderQueue_inv s'"
proof (cases "k < length (sleeping s)")
  case False
  then show ?thesis using assms by (simp add: timer_fires_def)
next
  case True
  with assms obtain a where sl: "sleeping s = [a]" and k: "k = 0"
    by (cases "sleeping s") (auto simp: VideoRenderQueue_inv_def)
  let ?r = "fst a"
  let ?d = "finished - fst (snd a)"
  let ?job = "(history s ! ?r)\<lparr>status := Done, durationMs := Some ?d\<rparr>"
  let ?h = "(history s)[?r := ?job]"
  let ?s1 = "s\<lparr>sleeping := [], history := ?h,
               console := console s @ [LOG_DONE (job_id (history s ! ?r)) ?d]\<rparr>"
  have t: "timer_fires s k finished now = processNext ?s1 now"
    using sl k by (simp add: timer_fires_def Let_def)
  have wf: "VideoRenderQueue_wf s" using assms by (rule inv_wf)
  then obtain rs where rs: "Queue_toArray (queue s) = Some rs" using wf_toArray by blast
  have r: "?r < length (history s)" using assms sl by (simp add: VideoRenderQueue_inv_def)
  have pr: "\<And>i. i < length (history s) \<Longrightarrow> status (history s ! i) = Processing \<longleftrightarrow> i = ?r"
    using inv_processing_iff [OF assms] sl by simp
  have w2: "\<forall>x \<in> set rs. x < length ?h \<and>
      (status (?h ! x) = Pending \<or> status (?h ! x) = Cancelled)"
  proof
    fix x assume x: "x \<in> set rs"
    then have 1: "x < length (history s)"
      "status (history s ! x) = Pending \<or> status (history s ! x) = Cancelled"
      using wf rs by (auto simp: VideoRenderQueue_wf_def)
    with pr [of x] have "x \<noteq> ?r" by auto
    then show "x < length ?h \<and> (status (?h ! x) = Pending \<or> status (?h ! x) = Cancelled)"
      using 1 by simp
  qed
  have w3: "\<forall>job \<in> set ?h. durationMs job \<noteq> None \<longleftrightarrow> status job = Done"
    using wf by (auto simp: VideoRenderQueue_wf_def dest!: subsetD [OF set_update_subset_insert])
  have w4: "distinct (map segmentId (filter (\<lambda>job. status job = Pending) ?h))"
    using wf by (intro distinct_map_filter_update) (simp_all add: VideoRenderQueue_wf_def)
  have wf1: "VideoRenderQueue_wf ?s1"
    unfolding VideoRenderQueue_wf_def using wf rs w2 w3 w4
    by (simp add: VideoRenderQueue_wf_def)
  have np: "\<forall>job \<in> set (history ?s1). status job \<noteq> Processing"
  proof
    fix job assume "job \<in> set (history ?s1)"
    then obtain i where i: "i < length (history s)" "job = ?h ! i"
      by (auto simp: in_set_conv_nth)
    show "status job \<noteq> Processing"
      using i pr [of i] r by (cases "i = ?r") simp_all
  qed
  have "processNext ?s1 now = Some (processNext_on rs ?s1 now)"
    using wf_Queue_inv [OF wf1] rs by (intro processNext_eq_on) simp_all
  moreover have "VideoRenderQueue_inv (processNext_on rs ?s1 now)"
    using wf1 rs np by (intro processNext_on_inv) simp_all
  ultimately show ?thesis using t by simp
qed

lemma step_inv:
  assumes "VideoRenderQueue_inv s"
  shows "\<exists>rep s'. step e s = Some (rep, s') \<and> VideoRenderQueue_inv s'"
proof (cases e)
  case (Enqueue seg eff prio created now)
  with enqueue_inv [OF assms, of seg eff prio created now] show ?thesis by auto
next
  case (CancelPending seg)
  with inv_cancel [OF assms, of seg] show ?thesis by simp
next
  case GetStats
  with assms show ?thesis by simp
next
  case (TimerFires k finished now)
  with timer_fires_inv [OF assms, of k finished now] show ?thesis by auto
qed

lemma run_inv:
  "VideoRenderQueue_inv s \<Longrightarrow> \<exists>reps s'. run es s = Some (reps, s') \<and> VideoRenderQueue_inv s'"
proof (induction es arbitrary: s)
  case Nil
  then show ?case by simp
next
  case (Cons e es)
  from step_inv [OF Cons.prems, of e] obtain rep s1
    where 1: "step e s = Some (rep, s1)" "VideoRenderQueue_inv s1" by blast
  from Cons.IH [OF 1(2)] obtain reps s' where "run es s1 = Some (reps, s')"
    "VideoRenderQueue_inv s'" by blast
  with 1 show ?case by simp
qed

lemma run_inv_result:
  "VideoRenderQueue_inv s \<Longrightarrow> run es s = Some (reps, s') \<Longrightarrow> VideoRenderQueue_inv s'"
  using run_inv [of s es] by auto

lemma reachable_inv: "reachable s \<Longrightarrow> VideoRenderQueue_inv s"
  unfolding reachable_def using run_inv_result [OF inv_new] by blast

section \<open>Statistics\<close>

lemma foldl_add_sum_list: "foldl (+) a xs = a + sum_list (xs :: int list)"
  by (induction xs arbitrary: a) simp_all

lemma count_status_total:
  "pending (count_status st c) + processing (count_status st c) + done_jobs (count_status st c)
     + cancelled (count_status st c)
   = pending c + processing c + done_jobs c + cancelled c + 1"
  by (cases st) simp_all

lemma getStats_loop_counts:
  "pending (fst (getStats_loop h (c, ts))) + processing (fst (getStats_loop h (c, ts)))
     + done_jobs (fst (getStats_loop h (c, ts))) + cancelled (fst (getStats_loop h (c, ts)))
   = pending c + processing c + done_jobs c + cancelled c + length h"
proof (induction h arbitrary: c ts)
  case Nil
  show ?case by simp
next
  case (Cons job h)
  show ?case by (simp add: Cons.IH count_status_total)
qed

lemma getStats_loop_times:
  "snd (getStats_loop h (c, ts)) =
     ts @ map (\<lambda>job. the (durationMs job))
            (filter (\<lambda>job. status job = Done \<and> durationMs job \<noteq> None) h)"
  by (induction h arbitrary: c ts) (auto split: option.splits)

lemma getStats_counts:
  "pending (getStats s) + processing (getStats s) + done_jobs (getStats s) + cancelled (getStats s)
   = length (history s)"
  using getStats_loop_counts [of "history s" "\<lparr>pending = 0, processing = 0, done_jobs = 0, cancelled = 0\<rparr>" "[]"]
  by (simp add: getStats_def split_beta Let_def)

lemma getStats_average:
  "averageRenderTimeMs (getStats s) =
     rounded_mean (map (\<lambda>job. the (durationMs job))
       (filter (\<lambda>job. status job = Done \<and> durationMs job \<noteq> None) (history s)))"
  by (simp add: getStats_def split_beta Let_def getStats_loop_times rounded_mean_def
      Math_round_def round_def foldl_add_sum_list)

lemma wf_done_durations:
  assumes "VideoRenderQueue_wf s"
  shows "filter (\<lambda>job. status job = Done \<and> durationMs job \<noteq> None) (history s) =
         filter (\<lambda>job. status job = Done) (history s)"
  using assms by (intro filter_cong) (auto simp: VideoRenderQueue_wf_def)

lemma reachable_state_after: "reachable (state_after es)"
proof -
  from run_inv [OF inv_new, of es] obtain reps s'
    where "run es VideoRenderQueue_new = Some (reps, s')" by blast
  then show ?thesis unfolding reachable_def state_after_def by (intro exI [of _ es] exI [of _ reps]) simp
qed

lemma runSimulation_history:
  "map (\<lambda>job. (segmentId job, status job, durationMs job))
     (history (state_after runSimulation_events)) =
   [(''seg_001'', Done, Some 351), (''seg_002'', Cancelled, None), (''seg_003'', Done, Some 250),
    (''seg_002'', Done, Some 200), (''seg_004'', Done, Some 101)]"
  by code_simp


section \<open>What the operations compute\<close>

lemma first_live_simps [simp]:
  "first_live h [] = []"
  "first_live h (r # rs) = (if status (h ! r) = Cancelled then first_live h rs else r # rs)"
  by (simp_all add: first_live_def)

lemma processNext_on_history:
  "history (processNext_on rs s now) =
     (case first_live (history s) rs of
        [] \<Rightarrow> history s
      | r # _ \<Rightarrow> (history s)[r := (history s ! r)\<lparr>status := Processing\<rparr>])"
  by (induction rs arbitrary: s) (simp_all add: Let_def split: list.splits)

lemma processNext_on_isProcessing:
  "isProcessing (processNext_on rs s now) \<longleftrightarrow> first_live (history s) rs \<noteq> []"
  by (induction rs arbitrary: s) (simp_all add: Let_def split: list.splits)

lemma processNext_on_sleeping:
  "sleeping (processNext_on rs s now) =
     (case first_live (history s) rs of
        [] \<Rightarrow> sleeping s
      | r # _ \<Rightarrow> sleeping s @ [(r, now, estimateRenderTime (effect (history s ! r)))])"
  by (induction rs arbitrary: s) (simp_all add: Let_def split: list.splits)

lemma processNext_on_console:
  "console (processNext_on rs s now) =
     console s @
     map (\<lambda>r. LOG_SKIP (job_id (history s ! r)))
       (takeWhile (\<lambda>r. status (history s ! r) = Cancelled) rs) @
     (case first_live (history s) rs of
        [] \<Rightarrow> [LOG_QUEUE_EMPTY]
      | r # _ \<Rightarrow> [LOG_START (job_id (history s ! r)) (effect (history s ! r))
                     (segmentId (history s ! r))])"
  by (induction rs arbitrary: s) (simp_all add: Let_def split: list.splits)

lemma processNext_on_unchanged [simp]:
  "cancelledSegments (processNext_on rs s now) = cancelledSegments s"
  "jobCounter (processNext_on rs s now) = jobCounter s"
  "unhandled (processNext_on rs s now) = unhandled s"
  by (induction rs arbitrary: s) (simp_all add: Let_def split: list.splits)

lemma processNext_on_queue:
  "Queue_inv (queue s) \<Longrightarrow> Queue_toArray (queue s) = Some rs \<Longrightarrow>
   Queue_toArray (queue (processNext_on rs s now)) = Some (tl (first_live (history s) rs))"
proof (induction rs arbitrary: s)
  case Nil
  then show ?case by simp
next
  case (Cons r rs)
  from Queue_dequeue_Cons [OF Cons.prems]
  have q: "Queue_inv (snd (Queue_dequeue (queue s)))"
    and a: "Queue_toArray (snd (Queue_dequeue (queue s))) = Some rs" by simp_all
  show ?case
  proof (cases "status (history s ! r) = Cancelled")
    case True
    then show ?thesis using Cons.IH [of "s\<lparr>isProcessing := True, queue := snd (Queue_dequeue (queue s)),
        console := console s @ [LOG_SKIP (job_id (history s ! r))]\<rparr>"] q a
      by (simp add: Let_def)
  next
    case False
    then show ?thesis using a by (simp add: Let_def)
  qed
qed

lemma first_live_subset: "set (first_live h rs) \<subseteq> set rs"
  unfolding first_live_def by (auto dest: set_dropWhileD)

lemma first_live_hd:
  "first_live h rs = r # rest \<Longrightarrow> r \<in> set rs \<and> status (h ! r) \<noteq> Cancelled"
  unfolding first_live_def using hd_dropWhile [of "\<lambda>r. status (h ! r) = Cancelled" rs]
  by (metis list.sel(1) list.set_intros(1) list.simps(3) set_dropWhileD)

lemma processNext_on_length [simp]:
  "length (history (processNext_on rs s now)) = length (history s)"
  by (simp add: processNext_on_history split: list.splits)

lemma processNext_on_cancelled:
  assumes "status (history s ! i) = Cancelled"
  shows "history (processNext_on rs s now) ! i = history s ! i"
proof (cases "first_live (history s) rs")
  case Nil
  then show ?thesis by (simp add: processNext_on_history)
next
  case (Cons r rest)
  from first_live_hd [OF Cons] assms have "r \<noteq> i" by auto
  then show ?thesis using Cons by (simp add: processNext_on_history)
qed

declare processNext_on.simps [simp del]

lemma inv_idle_queue:
  "VideoRenderQueue_inv s \<Longrightarrow> \<not> isProcessing s \<Longrightarrow> Queue_toArray (queue s) = Some []"
  by (simp add: VideoRenderQueue_inv_def)

lemma enqueue_eq:
  assumes "VideoRenderQueue_inv s"
  shows "enqueue s seg eff prio created now =
           Some (length (history s),
                 if isProcessing s then enqueue_append s seg eff prio created
                 else processNext_on [length (history s)]
                        (enqueue_append s seg eff prio created) now)"
proof -
  let ?s2 = "enqueue_append s seg eff prio created"
  have wf: "VideoRenderQueue_wf s" using assms by (rule inv_wf)
  have len: "length (history ?s2) - 1 = length (history s)" by (simp add: enqueue_append_fields)
  show ?thesis
  proof (cases "isProcessing s")
    case True
    then show ?thesis using len by (simp add: enqueue_def Let_def enqueue_append_fields)
  next
    case False
    note w2 = wf_enqueue_append [OF wf inv_idle_queue [OF assms False], of seg eff prio created]
    from processNext_eq_on [OF wf_Queue_inv [OF w2(1)], of _ now] w2(2)
    have "processNext ?s2 now = Some (processNext_on [length (history s)] ?s2 now)" by simp
    then show ?thesis using False len by (simp add: enqueue_def Let_def enqueue_append_fields)
  qed
qed

lemma enqueue_append_nth_old:
  "i < length (history s) \<Longrightarrow>
   history (enqueue_append s seg eff prio created) ! i = cancel_job seg (history s ! i)"
  by (simp add: enqueue_append_fields nth_append)

lemma enqueue_append_nth_new:
  "history (enqueue_append s seg eff prio created) ! length (history s) =
     \<lparr>job_id = ''job_'' @ decimal (jobCounter s + 1), segmentId = seg, effect = eff,
      priority = prio, createdAt = created, status = Pending, durationMs = None\<rparr>"
  by (simp add: enqueue_append_fields nth_append)

lemma processNext_on_single:
  "status (history s ! r) \<noteq> Cancelled \<Longrightarrow>
   history (processNext_on [r] s now) = (history s)[r := (history s ! r)\<lparr>status := Processing\<rparr>]"
  by (simp add: processNext_on_history)

lemma estimateRenderTime_defined: "estimateRenderTime e \<noteq> None \<longleftrightarrow> isEffectType e"
  by (auto simp: estimateRenderTime_def isEffectType_def times_table_def)

lemma processNext_set_Some:
  assumes "processNext s now = Some s'"
  shows "processNext (s\<lparr>cancelledSegments := C\<rparr>) now = Some (s'\<lparr>cancelledSegments := C\<rparr>)"
proof (rule processNext.raw_induct
    [where P = "\<lambda>s now s'. processNext (s\<lparr>cancelledSegments := C\<rparr>) now =
                             Some (s'\<lparr>cancelledSegments := C\<rparr>)", OF _ assms], goal_cases)
  case (1 f s now s')
  show ?case
  proof (cases "Queue_isEmpty (queue s)")
    case True
    with 1(2) show ?thesis by (subst processNext.simps) auto
  next
    case False
    obtain v q' where d: "Queue_dequeue (queue s) = (v, q')" by (cases "Queue_dequeue (queue s)")
    show ?thesis
    proof (cases v)
      case None
      with 1(2) False d show ?thesis by (subst processNext.simps) auto
    next
      case (Some r)
      show ?thesis
      proof (cases "status (history s ! r) = Cancelled")
        case True
        let ?s1 = "s\<lparr>isProcessing := True, queue := q',
                      console := console s @ [LOG_SKIP (job_id (history s ! r))]\<rparr>"
        from 1(2) False d Some True have "f ?s1 now = Some s'" by (simp add: Let_def)
        from 1(1) [OF this]
        have "processNext (?s1\<lparr>cancelledSegments := C\<rparr>) now = Some (s'\<lparr>cancelledSegments := C\<rparr>)" .
        moreover have "processNext (s\<lparr>cancelledSegments := C\<rparr>) now =
            processNext ((s\<lparr>cancelledSegments := C\<rparr>)\<lparr>isProcessing := True, queue := q',
              console := console s @ [LOG_SKIP (job_id (history s ! r))]\<rparr>) now"
          using False d Some True by (subst processNext.simps) (simp add: Let_def)
        moreover have "(s\<lparr>cancelledSegments := C\<rparr>)\<lparr>isProcessing := True, queue := q',
              console := console s @ [LOG_SKIP (job_id (history s ! r))]\<rparr> =
            ?s1\<lparr>cancelledSegments := C\<rparr>" by simp
        ultimately show ?thesis by (simp only:)
      next
        case F: False
        with 1(2) False d Some show ?thesis
          by (subst processNext.simps) (auto simp: Let_def)
      qed
    qed
  qed
qed

lemma processNext_set:
  "processNext (s\<lparr>cancelledSegments := C\<rparr>) now =
     map_option (\<lambda>s'. s'\<lparr>cancelledSegments := C\<rparr>) (processNext s now)"
proof (cases "processNext s now")
  case (Some s')
  then show ?thesis by (simp add: processNext_set_Some)
next
  case None
  show ?thesis
  proof (cases "processNext (s\<lparr>cancelledSegments := C\<rparr>) now")
    case N: None
    with None show ?thesis by simp
  next
    case (Some t)
    from processNext_set_Some [OF Some, of "cancelledSegments s"] None
    show ?thesis by simp
  qed
qed

lemma cancel_noset_set:
  "cancelPendingForSegment_noset (s\<lparr>cancelledSegments := C\<rparr>) seg =
     (cancelPendingForSegment s seg)\<lparr>cancelledSegments := C\<rparr>"
  by (simp add: cancelPendingForSegment_noset_def cancelPendingForSegment_def)

lemma enqueue_append_noset_set:
  "enqueue_append_noset (s\<lparr>cancelledSegments := C\<rparr>) seg eff prio created =
     (enqueue_append s seg eff prio created)\<lparr>cancelledSegments := C\<rparr>"
  by (simp add: enqueue_append_noset_def enqueue_append_def cancel_noset_set Let_def)

lemma enqueue_noset_set:
  "enqueue_noset (s\<lparr>cancelledSegments := C\<rparr>) seg eff prio created now =
     map_option (\<lambda>res. (fst res, (snd res)\<lparr>cancelledSegments := C\<rparr>))
       (enqueue s seg eff prio created now)"
  by (simp add: enqueue_noset_def enqueue_def enqueue_append_noset_set Let_def processNext_set
      option.map_comp comp_def)

lemma timer_fires_set:
  "timer_fires (s\<lparr>cancelledSegments := C\<rparr>) k finished now =
     map_option (\<lambda>s'. s'\<lparr>cancelledSegments := C\<rparr>) (timer_fires s k finished now)"
proof (cases "k < length (sleeping s)")
  case False
  then show ?thesis by (simp add: timer_fires_def)
next
  case True
  let ?r = "fst (sleeping s ! k)"
  let ?d = "finished - fst (snd (sleeping s ! k))"
  let ?s1 = "s\<lparr>sleeping := take k (sleeping s) @ drop (Suc k) (sleeping s),
               history := (history s)[?r := (history s ! ?r)\<lparr>status := Done, durationMs := Some ?d\<rparr>],
               console := console s @ [LOG_DONE (job_id (history s ! ?r)) ?d]\<rparr>"
  let ?s2 = "(s\<lparr>cancelledSegments := C\<rparr>)
              \<lparr>sleeping := take k (sleeping s) @ drop (Suc k) (sleeping s),
               history := (history s)[?r := (history s ! ?r)\<lparr>status := Done, durationMs := Some ?d\<rparr>],
               console := console s @ [LOG_DONE (job_id (history s ! ?r)) ?d]\<rparr>"
  have "timer_fires (s\<lparr>cancelledSegments := C\<rparr>) k finished now = processNext ?s2 now"
    using True by (simp add: timer_fires_def Let_def)
  moreover have "?s2 = ?s1\<lparr>cancelledSegments := C\<rparr>" by simp
  moreover have "processNext (?s1\<lparr>cancelledSegments := C\<rparr>) now =
      map_option (\<lambda>s'. s'\<lparr>cancelledSegments := C\<rparr>) (processNext ?s1 now)"
    by (rule processNext_set)
  moreover have "processNext ?s1 now = timer_fires s k finished now"
    using True by (simp add: timer_fires_def Let_def)
  ultimately show ?thesis by (simp only:)
qed

lemma getStats_set: "getStats (s\<lparr>cancelledSegments := C\<rparr>) = getStats s"
  by (simp add: getStats_def)

lemma returned_job_set:
  "returned_job (r, s\<lparr>cancelledSegments := C\<rparr>) = returned_job (r, s)"
  by (simp add: returned_job_def)

lemma step_noset_set:
  "step_noset e (s\<lparr>cancelledSegments := C\<rparr>) =
     map_option (\<lambda>(rep, s'). (rep, s'\<lparr>cancelledSegments := C\<rparr>)) (step e s)"
proof (cases e)
  case (Enqueue seg eff prio created now)
  then show ?thesis
    by (cases "enqueue s seg eff prio created now")
      (simp_all add: enqueue_noset_set returned_job_set split_beta)
next
  case (CancelPending seg)
  then show ?thesis by (simp add: cancel_noset_set)
next
  case GetStats
  then show ?thesis by (simp add: getStats_set)
next
  case (TimerFires k finished now)
  then show ?thesis
    by (cases "timer_fires s k finished now") (simp_all add: timer_fires_set)
qed

lemma run_noset_set:
  "run_noset es (s\<lparr>cancelledSegments := C\<rparr>) =
     map_option (\<lambda>(reps, s'). (reps, s'\<lparr>cancelledSegments := C\<rparr>)) (run es s)"
proof (induction es arbitrary: s)
  case Nil
  show ?case by simp
next
  case (Cons e es)
  show ?case
  proof (cases "step e s")
    case None
    then show ?thesis by (simp add: step_noset_set)
  next
    case (Some a)
    obtain rep s1 where a: "a = (rep, s1)" by (cases a)
    show ?thesis
      using Some a Cons.IH [of s1]
      by (cases "run es s1") (auto simp: step_noset_set)
  qed
qed

lemma new_set: "VideoRenderQueue_new\<lparr>cancelledSegments := {}\<rparr> = VideoRenderQueue_new"
  by (simp add: VideoRenderQueue_new_def)

lemma timer_fires_eq:
  assumes "VideoRenderQueue_inv s" "k < length (sleeping s)" "Queue_toArray (queue s) = Some rs"
  shows "k = 0 \<and> status (history s ! fst (sleeping s ! 0)) = Processing \<and>
         timer_fires s k finished now =
           Some (processNext_on rs
             (s\<lparr>sleeping := [],
                history := (history s)[fst (sleeping s ! 0) :=
                  (history s ! fst (sleeping s ! 0))
                    \<lparr>status := Done,
                     durationMs := Some (finished - fst (snd (sleeping s ! 0)))\<rparr>],
                console := console s @
                  [LOG_DONE (job_id (history s ! fst (sleeping s ! 0)))
                     (finished - fst (snd (sleeping s ! 0)))]\<rparr>) now)"
proof -
  from assms(1,2) obtain a where sl: "sleeping s = [a]" and k: "k = 0"
    by (cases "sleeping s") (auto simp: VideoRenderQueue_inv_def)
  have "fst a < length (history s)" using assms(1) sl by (simp add: VideoRenderQueue_inv_def)
  then have p: "status (history s ! fst a) = Processing"
    using inv_processing_iff [OF assms(1), of "fst a"] sl by simp
  let ?s1 = "s\<lparr>sleeping := [],
      history := (history s)[fst a := (history s ! fst a)
         \<lparr>status := Done, durationMs := Some (finished - fst (snd a))\<rparr>],
      console := console s @ [LOG_DONE (job_id (history s ! fst a)) (finished - fst (snd a))]\<rparr>"
  have "timer_fires s k finished now = processNext ?s1 now"
    using sl k by (simp add: timer_fires_def Let_def)
  moreover have "processNext ?s1 now = Some (processNext_on rs ?s1 now)"
    using wf_Queue_inv [OF inv_wf [OF assms(1)]] assms(3)
    by (intro processNext_eq_on) simp_all
  ultimately show ?thesis using sl k p by simp
qed

lemma step_cancelled_frame:
  assumes "VideoRenderQueue_inv s" "step e s = Some (rep, s')"
    "i < length (history s)" "status (history s ! i) = Cancelled"
  shows "i < length (history s') \<and> history s' ! i = history s ! i"
proof (cases e)
  case (Enqueue seg eff prio created now)
  let ?s2 = "enqueue_append s seg eff prio created"
  have c: "history ?s2 ! i = history s ! i"
    using assms(3,4) by (simp add: enqueue_append_nth_old)
  have l: "i < length (history ?s2)" using assms(3) by (simp add: enqueue_append_fields)
  from assms(2) Enqueue enqueue_eq [OF assms(1), of seg eff prio created now]
  have "s' = (if isProcessing s then ?s2 else processNext_on [length (history s)] ?s2 now)"
    by auto
  then show ?thesis
    using c l assms(4) processNext_on_cancelled [of ?s2 i "[length (history s)]" now]
    by (cases "isProcessing s") simp_all
next
  case (CancelPending seg)
  with assms show ?thesis by (auto simp: cancel_history)
next
  case GetStats
  with assms show ?thesis by simp
next
  case (TimerFires k finished now)
  show ?thesis
  proof (cases "k < length (sleeping s)")
    case False
    with assms TimerFires show ?thesis by (simp add: timer_fires_def)
  next
    case True
    obtain rs where rs: "Queue_toArray (queue s) = Some rs"
      using wf_toArray [OF inv_wf [OF assms(1)]] by blast
    let ?r = "fst (sleeping s ! 0)"
    let ?s1 = "s\<lparr>sleeping := [],
                history := (history s)[?r :=
                  (history s ! ?r)
                    \<lparr>status := Done,
                     durationMs := Some (finished - fst (snd (sleeping s ! 0)))\<rparr>],
                console := console s @
                  [LOG_DONE (job_id (history s ! ?r))
                     (finished - fst (snd (sleeping s ! 0)))]\<rparr>"
    note te = timer_fires_eq [OF assms(1) True rs, of finished now]
    have p: "status (history s ! ?r) = Processing" using te by (rule conjunct1 [OF conjunct2])
    have t: "timer_fires s k finished now = Some (processNext_on rs ?s1 now)"
      using te by (rule conjunct2 [OF conjunct2])
    from p assms(4) have "?r \<noteq> i" by auto
    then have c: "history ?s1 ! i = history s ! i" by simp
    from t assms(2) TimerFires have "s' = processNext_on rs ?s1 now" by auto
    then show ?thesis
      using c assms(3,4) processNext_on_cancelled [of ?s1 i rs now] by simp
  qed
qed

lemma run_cancelled_frame:
  "VideoRenderQueue_inv s \<Longrightarrow> run es s = Some (reps, s') \<Longrightarrow>
   i < length (history s) \<Longrightarrow> status (history s ! i) = Cancelled \<Longrightarrow>
   i < length (history s') \<and> history s' ! i = history s ! i"
proof (induction es arbitrary: s reps)
  case Nil
  then show ?case by simp
next
  case (Cons e es)
  from step_inv [OF Cons.prems(1), of e] obtain rep s1
    where 1: "step e s = Some (rep, s1)" "VideoRenderQueue_inv s1" by blast
  from Cons.prems(2) 1 obtain reps1 where 2: "run es s1 = Some (reps1, s')"
    by (cases "run es s1") auto
  from step_cancelled_frame [OF Cons.prems(1) 1(1) Cons.prems(3,4)]
  have 3: "i < length (history s1)" "history s1 ! i = history s ! i" by simp_all
  from Cons.IH [OF 1(2) 2 3(1)] 3 Cons.prems(4) show ?case by simp
qed

lemma processNext_skip:
  assumes "Queue_inv (queue t)" "Queue_toArray (queue t) = Some (r # rs)"
    "status (history t ! r) = Cancelled"
  shows "processNext t now =
           processNext (t\<lparr>isProcessing := True, queue := snd (Queue_dequeue (queue t)),
                          console := console t @ [LOG_SKIP (job_id (history t ! r))]\<rparr>) now"
proof -
  from Queue_dequeue_Cons [OF assms(1,2)]
  obtain q' where d: "Queue_dequeue (queue t) = (Some r, q')"
    by (cases "Queue_dequeue (queue t)") auto
  have "\<not> Queue_isEmpty (queue t)" using assms(1,2) by (simp add: Queue_isEmpty_iff)
  then show ?thesis using d assms(3) by (subst processNext.simps) (simp add: Let_def)
qed

lemma distinct_map_filter_nth:
  "distinct (map f (filter P xs)) \<Longrightarrow> i < length xs \<Longrightarrow> j < length xs \<Longrightarrow>
   P (xs ! i) \<Longrightarrow> P (xs ! j) \<Longrightarrow> f (xs ! i) = f (xs ! j) \<Longrightarrow> i = j"
proof (induction xs arbitrary: i j)
  case Nil
  then show ?case by simp
next
  case (Cons x xs)
  show ?case
  proof (cases i)
    case 0
    show ?thesis
    proof (cases j)
      case 0
      with \<open>i = 0\<close> show ?thesis by simp
    next
      case (Suc j')
      with 0 Cons.prems have "f x \<in> f ` set (filter P xs)" "P x"
        by (auto intro!: image_eqI [of _ _ "xs ! j'"])
      with Cons.prems(1) show ?thesis by simp
    qed
  next
    case (Suc i')
    show ?thesis
    proof (cases j)
      case 0
      with Suc Cons.prems have "f x \<in> f ` set (filter P xs)" "P x"
        by (auto intro!: image_eqI [of _ _ "xs ! i'"])
      with Cons.prems(1) show ?thesis by simp
    next
      case j: (Suc j')
      have "distinct (map f (filter P xs))" using Cons.prems(1) by (simp split: if_splits)
      from Cons.IH [OF this, of i' j'] Suc j Cons.prems show ?thesis by simp
    qed
  qed
qed


section \<open>The claims\<close>

text \<open>
  C1 (as amended). In every reachable state, a call of \<^verbatim>\<open>enqueue\<close> returns, and:
  every job of \<open>history\<close> with the same \<open>segmentId\<close> that was pending is now cancelled, and
  every other job, a processing one of that segment included, is what it was; a new
  record with status pending and no duration was appended to the tail of the queue and
  to \<open>history\<close> (the state \<open>enqueue_append\<close>); the record that the call returns is that
  record, with status pending when a worker was active at the call, and with status
  processing otherwise, because the call then starts the worker, which takes the record
  before the call returns.
\<close>

theorem C1_enqueue_supersedes:
  assumes "reachable s"
  shows "\<exists>s'. enqueue s seg eff prio created now = Some (length (history s), s') \<and>
     length (history s') = length (history s) + 1 \<and>
     (\<forall>i < length (history s).
        history s' ! i =
          (if segmentId (history s ! i) = seg \<and> status (history s ! i) = Pending
           then (history s ! i)\<lparr>status := Cancelled\<rparr> else history s ! i)) \<and>
     history (enqueue_append s seg eff prio created) =
       take (length (history s)) (history s') @
       [\<lparr>job_id = ''job_'' @ decimal (jobCounter s + 1), segmentId = seg, effect = eff,
         priority = prio, createdAt = created, status = Pending, durationMs = None\<rparr>] \<and>
     Queue_toArray (queue (enqueue_append s seg eff prio created)) =
       map_option (\<lambda>rs. rs @ [length (history s)]) (Queue_toArray (queue s)) \<and>
     returned_job (length (history s), s') =
       \<lparr>job_id = ''job_'' @ decimal (jobCounter s + 1), segmentId = seg, effect = eff,
        priority = prio, createdAt = created,
        status = (if isProcessing s then Pending else Processing), durationMs = None\<rparr>"
proof -
  let ?n = "length (history s)"
  let ?s2 = "enqueue_append s seg eff prio created"
  let ?s' = "if isProcessing s then ?s2 else processNext_on [?n] ?s2 now"
  have inv: "VideoRenderQueue_inv s" using assms by (rule reachable_inv)
  then have wf: "VideoRenderQueue_wf s" by (rule inv_wf)
  then obtain rs where rs: "Queue_toArray (queue s) = Some rs" using wf_toArray by blast
  have h': "history ?s' =
      (if isProcessing s then history ?s2
       else (history ?s2)[?n := (history ?s2 ! ?n)\<lparr>status := Processing\<rparr>])"
    by (simp add: processNext_on_single enqueue_append_nth_new)
  have 1: "length (history ?s') = ?n + 1" unfolding h' by (simp add: enqueue_append_fields)
  have 2: "\<forall>i < ?n. history ?s' ! i =
          (if segmentId (history s ! i) = seg \<and> status (history s ! i) = Pending
           then (history s ! i)\<lparr>status := Cancelled\<rparr> else history s ! i)"
    unfolding h' by (simp add: enqueue_append_nth_old cancel_job_def)
  have 3: "take ?n (history ?s') = map (cancel_job seg) (history s)"
    unfolding h' by (simp add: enqueue_append_fields)
  have 4: "returned_job (?n, ?s') =
       \<lparr>job_id = ''job_'' @ decimal (jobCounter s + 1), segmentId = seg, effect = eff,
        priority = prio, createdAt = created,
        status = (if isProcessing s then Pending else Processing), durationMs = None\<rparr>"
    unfolding returned_job_def fst_conv snd_conv h'
    by (simp add: enqueue_append_nth_new) (simp add: enqueue_append_fields)
  have 5: "Queue_toArray (queue ?s2) = map_option (\<lambda>rs. rs @ [?n]) (Queue_toArray (queue s))"
    using wf_enqueue_append(2) [OF wf rs, of seg eff prio created] rs by simp
  have 6: "history ?s2 = take ?n (history ?s') @
       [\<lparr>job_id = ''job_'' @ decimal (jobCounter s + 1), segmentId = seg, effect = eff,
         priority = prio, createdAt = created, status = Pending, durationMs = None\<rparr>]"
    unfolding 3 by (simp add: enqueue_append_fields)
  show ?thesis
    using enqueue_eq [OF inv, of seg eff prio created now] 1 2 4 5 6
    by (intro exI [of _ ?s']) (simp only: simp_thms)
qed

theorem C1_enqueue_supersedes_witness:
  "reachable (state_after (take 3 runSimulation_events)) \<and>
   (\<exists>s'. enqueue (state_after (take 3 runSimulation_events)) ''seg_002'' ''speed_change'' Normal 150 150
            = Some (3, s') \<and>
         status (history s' ! 0) = Processing \<and>
         status (history s' ! 1) = Cancelled \<and>
         status (returned_job (3, s')) = Pending)"
proof -
  let ?s = "state_after (take 3 runSimulation_events)"
  have r: "reachable ?s" by (rule reachable_state_after)
  have h: "map (\<lambda>job. (segmentId job, status job)) (history ?s) =
      [(''seg_001'', Processing), (''seg_002'', Pending), (''seg_003'', Pending)]"
    by code_simp
  have p: "isProcessing ?s" by code_simp
  have l: "length (history ?s) = 3" using arg_cong [OF h, of length] by simp
  have h0: "segmentId (history ?s ! 0) = ''seg_001''" "status (history ?s ! 0) = Processing"
    and h1: "segmentId (history ?s ! 1) = ''seg_002''" "status (history ?s ! 1) = Pending"
    using arg_cong [OF h, of "\<lambda>xs. xs ! 0"] arg_cong [OF h, of "\<lambda>xs. xs ! 1"] l by simp_all
  from C1_enqueue_supersedes [OF r, of "''seg_002''" "''speed_change''" Normal 150 150]
  obtain s' where e: "enqueue ?s ''seg_002'' ''speed_change'' Normal 150 150 = Some (3, s')"
    and f: "\<forall>i < 3. history s' ! i =
          (if segmentId (history ?s ! i) = ''seg_002'' \<and> status (history ?s ! i) = Pending
           then (history ?s ! i)\<lparr>status := Cancelled\<rparr> else history ?s ! i)"
    and j: "status (returned_job (3, s')) = Pending"
    unfolding l using p by auto
  from f have "status (history s' ! 0) = Processing" "status (history s' ! 1) = Cancelled"
    using h0 h1 by simp_all
  with r e j show ?thesis by blast
qed

text \<open>
  C1 as stated fails: the first submission to a new scheduler returns a record whose
  status is processing, not pending.
\<close>

theorem C1_enqueue_counterexample:
  "map_option (\<lambda>res. status (returned_job res))
     (enqueue VideoRenderQueue_new ''seg_001'' ''color_grade'' High 0 0) = Some Processing"
  by code_simp

text \<open>
  C2 (as amended). In every reachable state at most one job of a segment is pending, and
  at most one job in all is processing. (A pending job and the processing job can be of
  the same segment.)
\<close>

theorem C2_one_pending_per_segment:
  assumes "reachable s"
  shows "one_pending_per_segment s \<and>
     (\<forall>i < length (history s). \<forall>j < length (history s).
        status (history s ! i) = Pending \<and> status (history s ! j) = Pending \<and>
        segmentId (history s ! i) = segmentId (history s ! j) \<longrightarrow> i = j) \<and>
     (\<forall>i < length (history s). \<forall>j < length (history s).
        status (history s ! i) = Processing \<and> status (history s ! j) = Processing \<longrightarrow> i = j)"
proof -
  have inv: "VideoRenderQueue_inv s" using assms by (rule reachable_inv)
  have d: "distinct (map segmentId (filter (\<lambda>job. status job = Pending) (history s)))"
    using inv_wf [OF inv] by (simp add: VideoRenderQueue_wf_def)
  have p: "\<And>i j. i < length (history s) \<Longrightarrow> j < length (history s) \<Longrightarrow>
      status (history s ! i) = Processing \<Longrightarrow> status (history s ! j) = Processing \<Longrightarrow> i = j"
  proof -
    fix i j assume a: "i < length (history s)" "j < length (history s)"
      "status (history s ! i) = Processing" "status (history s ! j) = Processing"
    then have m: "i \<in> fst ` set (sleeping s)" "j \<in> fst ` set (sleeping s)"
      using inv_processing_iff [OF inv] by simp_all
    have "length (sleeping s) \<le> 1" using inv by (simp add: VideoRenderQueue_inv_def)
    then obtain a where "sleeping s = [] \<or> sleeping s = [a]"
      by (cases "sleeping s") auto
    with m show "i = j" by auto
  qed
  show ?thesis
    unfolding one_pending_per_segment_def
    using d distinct_map_filter_nth [OF d] p by blast
qed

theorem C2_one_pending_per_segment_witness:
  "reachable (state_after (take 5 runSimulation_events)) \<and>
   map (\<lambda>job. (segmentId job, status job)) (history (state_after (take 5 runSimulation_events))) =
     [(''seg_001'', Processing), (''seg_002'', Cancelled), (''seg_003'', Pending),
      (''seg_002'', Pending), (''seg_004'', Pending)] \<and>
   one_pending_per_segment (state_after (take 5 runSimulation_events))"
proof -
  let ?s = "state_after (take 5 runSimulation_events)"
  have r: "reachable ?s" by (rule reachable_state_after)
  have h: "map (\<lambda>job. (segmentId job, status job)) (history ?s) =
     [(''seg_001'', Processing), (''seg_002'', Cancelled), (''seg_003'', Pending),
      (''seg_002'', Pending), (''seg_004'', Pending)]" by code_simp
  from C2_one_pending_per_segment [OF r] r h show ?thesis by blast
qed

text \<open>
  C2 as stated fails: after two submissions for the same segment to a new scheduler the
  first job is processing and the second is pending, two active jobs of one segment.
\<close>

theorem C2_one_active_per_segment_counterexample:
  "map_option
     (\<lambda>res. (map (\<lambda>job. (segmentId job, status job)) (history (snd res)),
              one_active_per_segment (snd res)))
     (run [Enqueue ''seg_001'' ''color_grade'' High 0 0, Enqueue ''seg_001'' ''blur'' High 1 1]
        VideoRenderQueue_new)
   = Some ([(''seg_001'', Processing), (''seg_001'', Pending)], False)"
  by code_simp

text \<open>
  C3. A job that is cancelled in a reachable state is the same record, with the same
  status and no duration, after any further events. And when the head of a well-formed
  queue is a cancelled job, \<^verbatim>\<open>processNext\<close> dequeues it, writes one line, leaves \<open>history\<close>
  as it is and goes on with the rest of the queue.
\<close>

theorem C3_cancelled_is_final:
  "(reachable s \<and> run es s = Some (reps, s') \<and> i < length (history s) \<and>
      status (history s ! i) = Cancelled
    \<longrightarrow> i < length (history s') \<and> history s' ! i = history s ! i) \<and>
   (Queue_inv (queue t) \<and> Queue_toArray (queue t) = Some (r # rs) \<and>
      status (history t ! r) = Cancelled
    \<longrightarrow> processNext t now =
          processNext (t\<lparr>isProcessing := True, queue := snd (Queue_dequeue (queue t)),
                         console := console t @ [LOG_SKIP (job_id (history t ! r))]\<rparr>) now \<and>
        Queue_toArray (snd (Queue_dequeue (queue t))) = Some rs)"
  using run_cancelled_frame [OF reachable_inv, of s es reps s' i]
    processNext_skip [of t r rs now] Queue_dequeue_Cons [of "queue t" r rs]
  by blast

theorem C3_cancelled_is_final_witness:
  "reachable (state_after (take 5 runSimulation_events)) \<and>
   status (history (state_after (take 5 runSimulation_events)) ! 1) = Cancelled \<and>
   Queue_inv (queue (state_after (take 5 runSimulation_events))) \<and>
   Queue_toArray (queue (state_after (take 5 runSimulation_events))) = Some [1, 2, 3, 4] \<and>
   map_option (\<lambda>res. history (snd res) ! 1)
     (run (drop 5 runSimulation_events) (state_after (take 5 runSimulation_events))) =
     Some (history (state_after (take 5 runSimulation_events)) ! 1) \<and>
   Queue_toArray (snd (Queue_dequeue (queue (state_after (take 5 runSimulation_events))))) =
     Some [2, 3, 4]"
proof -
  let ?s = "state_after (take 5 runSimulation_events)"
  let ?es = "drop 5 runSimulation_events"
  have r: "reachable ?s" by (rule reachable_state_after)
  have c: "status (history ?s ! 1) = Cancelled" by code_simp
  have l: "1 < length (history ?s)" by code_simp
  have q: "Queue_toArray (queue ?s) = Some [1, 2, 3, 4]" by code_simp
  have qi: "Queue_inv (queue ?s)" by code_simp
  from run_inv [OF reachable_inv [OF r], of ?es] obtain reps s'
    where run: "run ?es ?s = Some (reps, s')" by blast
  from C3_cancelled_is_final [of ?s ?es reps s' 1 ?s 1 "[2, 3, 4]" 351] r run l c qi q
  have "history s' ! 1 = history ?s ! 1"
    and "Queue_toArray (snd (Queue_dequeue (queue ?s))) = Some [2, 3, 4]" by blast+
  with r c qi q run show ?thesis by simp
qed

text \<open>
  C4. In every reachable state the queue holds its jobs in the order of their creation;
  \<^verbatim>\<open>enqueue\<close> appends the new job at the tail whatever its priority, which is only stored
  in the record; and when the call returns the queue is the old one with the new job at
  its tail, or empty when the worker was idle and took the job at once.
\<close>

theorem C4_priority_inert:
  assumes "reachable s"
  shows "\<exists>rs s'.
     Queue_toArray (queue s) = Some rs \<and> sorted_wrt (<) rs \<and>
     Queue_toArray (queue (enqueue_append s seg eff prio created)) =
       Some (rs @ [length (history s)]) \<and>
     enqueue s seg eff prio created now = Some (length (history s), s') \<and>
     Queue_toArray (queue s') = Some (if isProcessing s then rs @ [length (history s)] else []) \<and>
     priority (history s' ! length (history s)) = prio"
proof -
  let ?n = "length (history s)"
  let ?s2 = "enqueue_append s seg eff prio created"
  let ?s' = "if isProcessing s then ?s2 else processNext_on [?n] ?s2 now"
  have inv: "VideoRenderQueue_inv s" using assms by (rule reachable_inv)
  then have wf: "VideoRenderQueue_wf s" by (rule inv_wf)
  then obtain rs where rs: "Queue_toArray (queue s) = Some rs" using wf_toArray by blast
  have srt: "sorted_wrt (<) rs" using wf rs by (simp add: VideoRenderQueue_wf_def)
  note w2 = wf_enqueue_append [OF wf rs, of seg eff prio created]
  have q: "Queue_toArray (queue ?s') = Some (if isProcessing s then rs @ [?n] else [])"
  proof (cases "isProcessing s")
    case True
    then show ?thesis using w2(2) by simp
  next
    case False
    with inv rs have "rs = []" by (simp add: VideoRenderQueue_inv_def)
    with w2(2) have a: "Queue_toArray (queue ?s2) = Some [?n]" by simp
    from processNext_on_queue [OF wf_Queue_inv [OF w2(1)] a, of now] False
    show ?thesis by (simp add: enqueue_append_nth_new)
  qed
  have p: "priority (history ?s' ! ?n) = prio"
    by (simp add: processNext_on_single enqueue_append_nth_new) (simp add: enqueue_append_fields)
  show ?thesis
    using enqueue_eq [OF inv, of seg eff prio created now] rs srt w2(2) q p
    by (intro exI [of _ rs] exI [of _ ?s']) (simp only: simp_thms)
qed

theorem C4_priority_inert_witness:
  "reachable (state_after (take 3 runSimulation_events)) \<and>
   Queue_toArray (queue (state_after (take 3 runSimulation_events))) = Some [1, 2] \<and>
   map priority (history (state_after (take 3 runSimulation_events))) = [High, Normal, Normal] \<and>
   Queue_toArray (queue (enqueue_append (state_after (take 3 runSimulation_events))
       ''seg_009'' ''trim'' High 150)) = Some [1, 2, 3]"
proof -
  let ?s = "state_after (take 3 runSimulation_events)"
  have r: "reachable ?s" by (rule reachable_state_after)
  have q: "Queue_toArray (queue ?s) = Some [1, 2]" by code_simp
  have l: "length (history ?s) = 3" by code_simp
  have p: "map priority (history ?s) = [High, Normal, Normal]" by code_simp
  from C4_priority_inert [OF r, of "''seg_009''" "''trim''" High 150 150] q l
  have "Queue_toArray (queue (enqueue_append ?s ''seg_009'' ''trim'' High 150)) = Some [1, 2, 3]"
    by auto
  with r q p show ?thesis by simp
qed

text \<open>
  C5 (as amended). \<^verbatim>\<open>enqueue\<close> does not look at the effect: in every reachable state the
  call returns a record with the effect it was given and rejects nothing. The duration
  table has an entry exactly for the five effects of \<^verbatim>\<open>EffectType\<close>.
\<close>

theorem C5_enqueue_unvalidated:
  assumes "reachable s"
  shows "(\<exists>s'. enqueue s seg eff prio created now = Some (length (history s), s') \<and>
               effect (returned_job (length (history s), s')) = eff \<and> unhandled s' = []) \<and>
         (isEffectType eff \<longleftrightarrow> estimateRenderTime eff \<noteq> None)"
proof -
  let ?n = "length (history s)"
  let ?s2 = "enqueue_append s seg eff prio created"
  let ?s' = "if isProcessing s then ?s2 else processNext_on [?n] ?s2 now"
  have inv: "VideoRenderQueue_inv s" using assms by (rule reachable_inv)
  have u: "unhandled ?s' = []"
    using inv_wf [OF inv] by (simp add: enqueue_append_fields VideoRenderQueue_wf_def)
  have e: "effect (returned_job (?n, ?s')) = eff"
    unfolding returned_job_def fst_conv snd_conv
    by (simp add: processNext_on_single enqueue_append_nth_new) (simp add: enqueue_append_fields)
  show ?thesis
    using enqueue_eq [OF inv, of seg eff prio created now] u e estimateRenderTime_defined [of eff]
    by (intro conjI exI [of _ ?s']) (simp_all only: simp_thms)
qed

theorem C5_enqueue_unvalidated_witness:
  "reachable (state_after (take 3 runSimulation_events)) \<and>
   (\<exists>s'. enqueue (state_after (take 3 runSimulation_events)) ''seg_002'' ''speed_change'' Normal 150 150
            = Some (3, s') \<and>
          effect (returned_job (3, s')) = ''speed_change'') \<and>
   isEffectType ''speed_change'' \<and> estimateRenderTime ''speed_change'' = Some 200"
proof -
  let ?s = "state_after (take 3 runSimulation_events)"
  have r: "reachable ?s" by (rule reachable_state_after)
  have l: "length (history ?s) = 3" by code_simp
  have t: "estimateRenderTime ''speed_change'' = Some 200" by code_simp
  from C5_enqueue_unvalidated [OF r, of "''seg_002''" "''speed_change''" Normal 150 150] r t
  show ?thesis unfolding l by auto
qed

text \<open>
  C5 as stated fails: an effect that the table does not have is accepted, the job starts,
  and the worker sleeps for an undefined time.
\<close>

theorem C5_enqueue_unvalidated_counterexample:
  "\<not> isEffectType ''sepia'' \<and> estimateRenderTime ''sepia'' = None \<and>
   map_option (\<lambda>res. (effect (returned_job res), status (returned_job res),
                       sleeping (snd res), unhandled (snd res)))
     (enqueue VideoRenderQueue_new ''seg_001'' ''sepia'' Normal 0 0)
   = Some (''sepia'', Processing, [(0, 0, None)], [])"
  by code_simp

text \<open>
  C6. In every reachable state, the \<open>averageRenderTimeMs\<close> that \<^verbatim>\<open>getStats()\<close> returns is 0
  when no job is done, and otherwise the arithmetic mean of \<open>durationMs\<close> over the done jobs
  of \<open>history\<close>, rounded to the nearest integer: it is \<open>round\<close> of the mean, and it differs
  from the mean by at most one half.
\<close>

theorem C6_average_render_time:
  assumes "reachable s"
  shows "averageRenderTimeMs (getStats s) =
           (if done_durations s = [] then 0
            else round (of_int (sum_list (done_durations s)) /
                        of_int (int (length (done_durations s))) :: rat)) \<and>
         (done_durations s \<noteq> [] \<longrightarrow>
            \<bar>of_int (averageRenderTimeMs (getStats s)) -
              (of_int (sum_list (done_durations s)) /
               of_int (int (length (done_durations s))) :: rat)\<bar> \<le> 1 / 2)"
proof -
  have wf: "VideoRenderQueue_wf s" using assms by (intro inv_wf reachable_inv)
  have a: "averageRenderTimeMs (getStats s) = rounded_mean (done_durations s)"
    by (simp only: getStats_average wf_done_durations [OF wf] done_durations_def)
  show ?thesis
    using of_int_round_abs_le [of "of_int (sum_list (done_durations s)) /
            of_int (int (length (done_durations s))) :: rat"]
    by (simp add: a rounded_mean_def)
qed

theorem C6_average_render_time_witness:
  "reachable (state_after runSimulation_events) \<and>
   done_durations (state_after runSimulation_events) = [351, 250, 200, 101] \<and>
   averageRenderTimeMs (getStats (state_after runSimulation_events)) = 226"
proof -
  let ?s = "state_after runSimulation_events"
  have r: "reachable ?s" by (rule reachable_state_after)
  have d: "done_durations ?s = [351, 250, 200, 101]" by code_simp
  have "round (902 / 4 :: rat) = 226" by code_simp
  with C6_average_render_time [OF r] r d show ?thesis by simp
qed

text \<open>
  C7. In every state, the four counts that \<^verbatim>\<open>getStats()\<close> returns add up to the length of
  \<open>history\<close>, and the call leaves the state as it was.
\<close>

theorem C7_stats_partition:
  "pending (getStats s) + processing (getStats s) + done_jobs (getStats s) + cancelled (getStats s)
     = length (history s)
   \<and> step GetStats s = Some (Stats (getStats s), s)"
  by (simp add: getStats_counts)

text \<open>
  C8. In every reachable state, a job of \<open>history\<close> has a \<open>durationMs\<close> if and only if its
  status is done.
\<close>

theorem C8_duration_iff_done:
  "reachable s \<Longrightarrow> job \<in> set (history s) \<Longrightarrow> durationMs job \<noteq> None \<longleftrightarrow> status job = Done"
  using reachable_inv [of s] by (simp add: VideoRenderQueue_inv_def VideoRenderQueue_wf_def)

theorem C8_duration_iff_done_witness:
  "reachable (state_after runSimulation_events) \<and>
   history (state_after runSimulation_events) ! 0 \<in> set (history (state_after runSimulation_events)) \<and>
   durationMs (history (state_after runSimulation_events) ! 0) = Some 351 \<and>
   status (history (state_after runSimulation_events) ! 0) = Done"
proof -
  let ?s = "state_after runSimulation_events"
  have r: "reachable ?s" by (rule reachable_state_after)
  have m: "history ?s ! 0 \<in> set (history ?s)" by code_simp
  have d: "durationMs (history ?s ! 0) = Some 351" by code_simp
  from C8_duration_iff_done [OF r m] r m d show ?thesis by simp
qed

text \<open>
  C9. Calling \<^verbatim>\<open>cancelPendingForSegment\<close> twice is the same as calling it once: the states
  are equal. When no job of the segment is pending, the call changes nothing but the set
  \<open>cancelledSegments\<close>, which nothing reads: the jobs, the queue and the console are
  as before. The function has no failure branch.
\<close>

theorem C9_cancel_idempotent:
  "cancelPendingForSegment (cancelPendingForSegment s seg) seg = cancelPendingForSegment s seg \<and>
   ((\<forall>job \<in> set (history s). segmentId job = seg \<longrightarrow> status job \<noteq> Pending) \<longrightarrow>
      cancelPendingForSegment s seg = s\<lparr>cancelledSegments := insert seg (cancelledSegments s)\<rparr>)"
proof
  have 1: "map (cancel_job seg) (map (cancel_job seg) (history s)) = map (cancel_job seg) (history s)"
    by (simp add: cancel_job_def)
  have 2: "filter (\<lambda>job. segmentId job = seg \<and> status job = Pending)
             (map (cancel_job seg) (history s)) = []"
    unfolding filter_empty_conv using pending_after_cancel [of _ seg "history s"] by blast
  show "cancelPendingForSegment (cancelPendingForSegment s seg) seg = cancelPendingForSegment s seg"
    using 1 2 by (simp add: cancelPendingForSegment_def cancel_job_def [abs_def])
  show "(\<forall>job \<in> set (history s). segmentId job = seg \<longrightarrow> status job \<noteq> Pending) \<longrightarrow>
      cancelPendingForSegment s seg = s\<lparr>cancelledSegments := insert seg (cancelledSegments s)\<rparr>"
  proof
    assume a: "\<forall>job \<in> set (history s). segmentId job = seg \<longrightarrow> status job \<noteq> Pending"
    then have "map (cancel_job seg) (history s) = history s"
      by (intro map_idI) (auto simp: cancel_job_def)
    moreover have "filter (\<lambda>job. segmentId job = seg \<and> status job = Pending) (history s) = []"
      using a by (auto simp: filter_empty_conv)
    ultimately show "cancelPendingForSegment s seg =
        s\<lparr>cancelledSegments := insert seg (cancelledSegments s)\<rparr>"
      by (simp add: cancelPendingForSegment_def cancel_job_def [abs_def])
  qed
qed

theorem C9_cancel_idempotent_witness:
  "filter (\<lambda>job. segmentId job = ''seg_X'' \<and> status job = Pending)
     (history (state_after runSimulation_events)) = [] \<and>
   cancelPendingForSegment (state_after runSimulation_events) ''seg_X'' =
     (state_after runSimulation_events)
       \<lparr>cancelledSegments := insert ''seg_X'' (cancelledSegments (state_after runSimulation_events))\<rparr> \<and>
   cancelPendingForSegment (cancelPendingForSegment (state_after runSimulation_events) ''seg_X'') ''seg_X''
     = cancelPendingForSegment (state_after runSimulation_events) ''seg_X''"
proof -
  let ?s = "state_after runSimulation_events"
  have f: "filter (\<lambda>job. segmentId job = ''seg_X'' \<and> status job = Pending) (history ?s) = []"
    by code_simp
  then have "\<forall>job \<in> set (history ?s). segmentId job = ''seg_X'' \<longrightarrow> status job \<noteq> Pending"
    unfolding filter_empty_conv by blast
  with C9_cancel_idempotent [of ?s "''seg_X''"] f show ?thesis by blast
qed

text \<open>
  C10. The scheduler without the set \<open>cancelledSegments\<close> returns the same replies (job
  records, statistics) as the scheduler with it, for every list of events and from every
  state, and its state is the same but for the set, which keeps the value it had. The two
  versions of \<^verbatim>\<open>cancelPendingForSegment\<close> differ in the set only.
\<close>

theorem C10_cancelledSegments_write_only:
  "run_noset es VideoRenderQueue_new =
     map_option (\<lambda>(reps, s'). (reps, s'\<lparr>cancelledSegments := {}\<rparr>)) (run es VideoRenderQueue_new)
   \<and> run_noset es (s\<lparr>cancelledSegments := C\<rparr>) =
     map_option (\<lambda>(reps, s'). (reps, s'\<lparr>cancelledSegments := C\<rparr>)) (run es s)
   \<and> cancelPendingForSegment s seg =
       (cancelPendingForSegment_noset s seg)\<lparr>cancelledSegments := insert seg (cancelledSegments s)\<rparr>"
  using run_noset_set [where es = es and s = VideoRenderQueue_new and C = "{}"]
    run_noset_set [where es = es and s = s and C = C]
  by (simp add: new_set cancelPendingForSegment_noset_def cancelPendingForSegment_def)

theorem C10_cancelledSegments_write_only_witness:
  "map_option fst (run_noset runSimulation_events VideoRenderQueue_new) =
     map_option fst (run runSimulation_events VideoRenderQueue_new) \<and>
   map_option (history \<circ> snd) (run_noset runSimulation_events VideoRenderQueue_new) =
     map_option (history \<circ> snd) (run runSimulation_events VideoRenderQueue_new)"
  using C10_cancelledSegments_write_only
    [where es = runSimulation_events and s = VideoRenderQueue_new and C = "{}" and seg = "''seg_X''"]
  by (cases "run runSimulation_events VideoRenderQueue_new") (auto simp: comp_def)

end
